theory Spec2Isabelle
  imports Complex_Main "HOL-Library.Sublist" "HOL-Library.Multiset"
begin

section \<open>The grid planner (imageprocessor.go)\<close>

text \<open>
  Go's \<open>int\<close> is modelled as \<open>int\<close> and \<open>float64\<close> as \<open>rat\<close>: the model is the
  source as long as no product leaves the 64-bit range and the two operands of each
  floating-point division are below \<open>2^53\<close>, where the conversion is exact and the
  rounded quotients of two fractions with the same denominator compare as the fractions
  do. Go's integer division truncates towards zero; \<open>quo\<close> is that division.
\<close>

definition quo :: "int \<Rightarrow> int \<Rightarrow> int" where
  "quo a b = sgn a * sgn b * (\<bar>a\<bar> div \<bar>b\<bar>)"

record GridDimensions =
  Cols :: int
  Rows :: int
  PicWidth :: int
  PicHeight :: int

text \<open>The five local variables the loop of \<open>calculateOptimalGrid\<close> updates.\<close>

record best =
  bestFit :: rat
  bestCols :: int
  bestRows :: int
  bestPicWidth :: int
  bestPicHeight :: int

definition best0 :: best where
  "best0 = \<lparr>bestFit = 0, bestCols = 0, bestRows = 0, bestPicWidth = 0, bestPicHeight = 0\<rparr>"

text \<open>\<open>r := int(math.Ceil(float64(pictureCount) / float64(c)))\<close>\<close>

definition rowsFor :: "int \<Rightarrow> int \<Rightarrow> int" where
  "rowsFor pictureCount c = \<lceil>(of_int pictureCount :: rat) / of_int c\<rceil>"

definition utilization :: "int \<Rightarrow> int \<Rightarrow> int \<Rightarrow> int \<Rightarrow> int \<Rightarrow> int \<Rightarrow> rat" where
  "utilization canvasWidth canvasHeight actualWidth c actualHeight r =
     of_int (actualWidth * c * actualHeight * r) / of_int (canvasWidth * canvasHeight)"

text \<open>The five assignments under \<open>if utilization > bestFit\<close>.\<close>

definition consider_cand :: "rat \<Rightarrow> int \<Rightarrow> int \<Rightarrow> int \<Rightarrow> int \<Rightarrow> best \<Rightarrow> best" where
  "consider_cand u c r actualWidth actualHeight b =
     (if u > bestFit b
      then \<lparr>bestFit = u, bestCols = c, bestRows = r,
            bestPicWidth = actualWidth, bestPicHeight = actualHeight\<rparr>
      else b)"

text \<open>One iteration of the loop, for the column count \<open>c\<close>.\<close>

definition grid_body :: "int \<Rightarrow> int \<Rightarrow> int \<Rightarrow> int \<Rightarrow> best \<Rightarrow> best" where
  "grid_body canvasWidth canvasHeight pictureCount c b =
     (let r = rowsFor pictureCount c;
          tempWidth = quo canvasWidth c;
          tempHeight = quo canvasHeight r
      in if tempHeight > 2 * tempWidth
         then (let actualHeight = 2 * tempWidth; actualWidth = tempWidth
               in if actualHeight * r \<le> canvasHeight
                  then consider_cand
                         (utilization canvasWidth canvasHeight actualWidth c actualHeight r)
                         c r actualWidth actualHeight b
                  else b)
         else (let actualHeight = tempHeight; actualWidth = quo actualHeight 2
               in if actualWidth * c \<le> canvasWidth
                  then consider_cand
                         (utilization canvasWidth canvasHeight actualWidth c actualHeight r)
                         c r actualWidth actualHeight b
                  else b))"

text \<open>\<open>for c := 1; c <= pictureCount; c++\<close>, from the current \<open>c\<close> on.\<close>

function grid_loop :: "int \<Rightarrow> int \<Rightarrow> int \<Rightarrow> int \<Rightarrow> best \<Rightarrow> best" where
  "grid_loop canvasWidth canvasHeight pictureCount c b =
     (if c \<le> pictureCount
      then grid_loop canvasWidth canvasHeight pictureCount (c + 1)
             (grid_body canvasWidth canvasHeight pictureCount c b)
      else b)"
  by pat_completeness auto
termination
  by (relation "measure (\<lambda>(cw, ch, n, c, b). nat (n + 1 - c))") auto

declare grid_loop.simps [simp del]

definition calculateOptimalGrid :: "int \<Rightarrow> int \<Rightarrow> int \<Rightarrow> GridDimensions" where
  "calculateOptimalGrid canvasWidth canvasHeight pictureCount =
     (let b = grid_loop canvasWidth canvasHeight pictureCount 1 best0
      in \<lparr>Cols = bestCols b, Rows = bestRows b,
          PicWidth = bestPicWidth b, PicHeight = bestPicHeight b\<rparr>)"

text \<open>
  The logged and returned spec, as a function of the loop's variables, and the quantities
  the properties below speak about: the utilization of a spec by the formula of the
  source, and the spec that the iteration for \<open>c\<close> offers to the comparison when its
  fit check passes (\<open>None\<close> when it does not).
\<close>

definition grid_of :: "best \<Rightarrow> GridDimensions" where
  "grid_of b = \<lparr>Cols = bestCols b, Rows = bestRows b,
               PicWidth = bestPicWidth b, PicHeight = bestPicHeight b\<rparr>"

definition zero_grid :: GridDimensions where
  "zero_grid = \<lparr>Cols = 0, Rows = 0, PicWidth = 0, PicHeight = 0\<rparr>"

definition util_of :: "int \<Rightarrow> int \<Rightarrow> GridDimensions \<Rightarrow> rat" where
  "util_of canvasWidth canvasHeight g =
     utilization canvasWidth canvasHeight (PicWidth g) (Cols g) (PicHeight g) (Rows g)"

definition candidate :: "int \<Rightarrow> int \<Rightarrow> int \<Rightarrow> int \<Rightarrow> GridDimensions option" where
  "candidate canvasWidth canvasHeight pictureCount c =
     (let r = rowsFor pictureCount c;
          tempWidth = quo canvasWidth c;
          tempHeight = quo canvasHeight r
      in if tempHeight > 2 * tempWidth
         then (if 2 * tempWidth * r \<le> canvasHeight
               then Some \<lparr>Cols = c, Rows = r, PicWidth = tempWidth, PicHeight = 2 * tempWidth\<rparr>
               else None)
         else (if quo tempHeight 2 * c \<le> canvasWidth
               then Some \<lparr>Cols = c, Rows = r, PicWidth = quo tempHeight 2, PicHeight = tempHeight\<rparr>
               else None))"

text \<open>
  Two loop invariants. \<open>sound\<close>: the variables hold either nothing or a spec with
  positive fields that fits the canvas. \<open>first_best\<close>, before the iteration for \<open>c\<close>:
  \<open>bestFit\<close> is the utilization of the held spec and bounds that of every candidate below
  \<open>c\<close>, and the held spec, if any, is the first candidate that reaches it.
\<close>

definition sound :: "int \<Rightarrow> int \<Rightarrow> best \<Rightarrow> bool" where
  "sound cw ch b \<longleftrightarrow>
     bestFit b = util_of cw ch (grid_of b) \<and>
     (bestFit b = 0 \<and> grid_of b = zero_grid \<or>
      0 < bestFit b \<and> 0 < bestCols b \<and> 0 < bestRows b \<and>
      0 < bestPicWidth b \<and> 0 < bestPicHeight b \<and>
      bestCols b * bestPicWidth b \<le> cw \<and> bestRows b * bestPicHeight b \<le> ch \<and>
      (bestPicHeight b = 2 * bestPicWidth b \<or> bestPicHeight b = 2 * bestPicWidth b + 1))"


section \<open>The file cache\<close>

text \<open>
  Byte slices are strings, a Go \<open>error\<close> is its message, instants and durations are
  integers (nanoseconds). The file system is a map from paths to files; \<open>fault\<close> says
  which operating-system calls fail at the moment and with which error, and \<open>tmpNames\<close>
  are the random names \<open>os.CreateTemp\<close> tries, in order.
\<close>

type_synonym bytes = string

datatype os_error = ErrNotExist | ErrExist | ErrOther string

datatype os_op = OpStat | OpOpen | OpRead | OpMkdirAll | OpCreateTemp | OpWrite | OpSync
  | OpClose | OpRename

record disk_file =
  content :: bytes
  modTime :: int

record filesys =
  files :: "string \<rightharpoonup> disk_file"
  fault :: "os_op \<Rightarrow> os_error option"
  tmpNames :: "string list"

record FileCache =
  Dir :: string
  TTL :: int

fun Error :: "os_error \<Rightarrow> string" where
  "Error ErrNotExist = ''file does not exist''"
| "Error ErrExist = ''file already exists''"
| "Error (ErrOther msg) = msg"

definition IsNotExist :: "os_error \<Rightarrow> bool" where
  "IsNotExist err \<longleftrightarrow> err = ErrNotExist"

text \<open>\<open>NewFileCache\<close>: the checks of the arguments, then \<open>os.MkdirAll\<close>.\<close>

definition NewFileCache :: "string \<Rightarrow> int \<Rightarrow> filesys \<Rightarrow> string + FileCache" where
  "NewFileCache dir ttl fs =
     (if dir = [] then Inl ''cache directory cannot be empty''
      else if ttl \<le> 0 then Inl ''ttl must be > 0''
      else (case fault fs OpMkdirAll of
              Some err \<Rightarrow> Inl (''creating cache dir: '' @ Error err)
            | None \<Rightarrow> Inr \<lparr>Dir = dir, TTL = ttl\<rparr>))"

text \<open>
  \<open>filePath\<close>: the first 16 bytes of the SHA-256 digest of the key, in hexadecimal, with
  the extension \<open>.bin\<close>, under the cache directory. The digest function is the
  parameter \<open>sha\<close>.
\<close>

definition hexdigit :: "nat \<Rightarrow> char" where
  "hexdigit n = ''0123456789abcdef'' ! (n mod 16)"

definition EncodeToString :: "bytes \<Rightarrow> string" where
  "EncodeToString bs =
     concat (map (\<lambda>b. [hexdigit (of_char b div 16), hexdigit (of_char b mod 16)]) bs)"

definition filePath :: "(string \<Rightarrow> bytes) \<Rightarrow> FileCache \<Rightarrow> string \<Rightarrow> string" where
  "filePath sha c key = Dir c @ ''/'' @ EncodeToString (take 16 (sha key)) @ ''.bin''"

text \<open>The operating-system calls the cache makes.\<close>

record FileInfo =
  Size :: int
  ModTime :: int

definition os_Stat :: "filesys \<Rightarrow> string \<Rightarrow> os_error + FileInfo" where
  "os_Stat fs path =
     (case fault fs OpStat of
        Some err \<Rightarrow> Inl err
      | None \<Rightarrow> (case files fs path of
                   None \<Rightarrow> Inl ErrNotExist
                 | Some f \<Rightarrow> Inr \<lparr>Size = int (length (content f)), ModTime = modTime f\<rparr>))"

definition os_Open :: "filesys \<Rightarrow> string \<Rightarrow> os_error + disk_file" where
  "os_Open fs path =
     (case fault fs OpOpen of
        Some err \<Rightarrow> Inl err
      | None \<Rightarrow> (case files fs path of None \<Rightarrow> Inl ErrNotExist | Some f \<Rightarrow> Inr f))"

definition io_ReadAll :: "filesys \<Rightarrow> disk_file \<Rightarrow> os_error + bytes" where
  "io_ReadAll fs f = (case fault fs OpRead of Some err \<Rightarrow> Inl err | None \<Rightarrow> Inr (content f))"

text \<open>
  \<open>os.CreateTemp(dir, "tmp-*")\<close> creates an empty file under the first of the random
  names that is not taken, and fails when every name is taken.
\<close>

definition os_CreateTemp :: "filesys \<Rightarrow> string \<Rightarrow> int \<Rightarrow> os_error + string \<times> filesys" where
  "os_CreateTemp fs dir now =
     (case fault fs OpCreateTemp of
        Some err \<Rightarrow> Inl err
      | None \<Rightarrow>
          (case find (\<lambda>p. files fs p = None) (map (\<lambda>r. dir @ ''/tmp-'' @ r) (tmpNames fs)) of
             None \<Rightarrow> Inl ErrExist
           | Some p \<Rightarrow> Inr (p, fs\<lparr>files := (files fs)(p \<mapsto> \<lparr>content = [], modTime = now\<rparr>)\<rparr>)))"

definition os_Remove :: "string \<Rightarrow> filesys \<Rightarrow> filesys" where
  "os_Remove path fs = fs\<lparr>files := (files fs)(path := None)\<rparr>"

definition os_Rename :: "string \<Rightarrow> string \<Rightarrow> filesys \<Rightarrow> os_error + filesys" where
  "os_Rename old new fs =
     (case fault fs OpRename of
        Some err \<Rightarrow> Inl err
      | None \<Rightarrow>
          (case files fs old of
             None \<Rightarrow> Inl ErrNotExist
           | Some f \<Rightarrow> Inr (fs\<lparr>files := ((files fs)(old := None))(new \<mapsto> f)\<rparr>)))"

text \<open>
  \<open>Get\<close> returns \<open>Inl\<close> of the error, \<open>Inr None\<close> for \<open>(nil, false, nil)\<close> and
  \<open>Inr (Some b)\<close> for \<open>(b, true, nil)\<close>; \<open>now\<close> is the instant of \<open>time.Since\<close>.
\<close>

definition Get :: "(string \<Rightarrow> bytes) \<Rightarrow> FileCache \<Rightarrow> string \<Rightarrow> int \<Rightarrow> filesys \<Rightarrow> string + bytes option" where
  "Get sha c key now fs =
     (let path = filePath sha c key
      in case os_Stat fs path of
           Inl err \<Rightarrow>
             if IsNotExist err then Inr None else Inl (''stat cache file: '' @ Error err)
         | Inr fi \<Rightarrow>
             if Size fi = 0 then Inr None
             else if now - ModTime fi > TTL c then Inr None
             else (case os_Open fs path of
                     Inl err \<Rightarrow>
                       if IsNotExist err then Inr None
                       else Inl (''open cache file: '' @ Error err)
                   | Inr f \<Rightarrow>
                       (case io_ReadAll fs f of
                          Inl err \<Rightarrow> Inl (''read cache file: '' @ Error err)
                        | Inr b \<Rightarrow> Inr (Some b))))"

text \<open>
  \<open>writeFileAtomically\<close> returns the error, if any, and the file system it leaves. The
  deferred function (close and remove the temporary file) runs on every path after
  \<open>os.CreateTemp\<close> has succeeded.
\<close>

definition writeFileAtomically ::
  "(string \<Rightarrow> bytes) \<Rightarrow> FileCache \<Rightarrow> string \<Rightarrow> bytes \<Rightarrow> int \<Rightarrow> filesys \<Rightarrow> string option \<times> filesys" where
  "writeFileAtomically sha c key data now fs =
     (case fault fs OpMkdirAll of
        Some err \<Rightarrow> (Some (''ensure cache dir: '' @ Error err), fs)
      | None \<Rightarrow>
          (let finalPath = filePath sha c key
           in case os_CreateTemp fs (Dir c) now of
                Inl err \<Rightarrow> (Some (''create temp file: '' @ Error err), fs)
              | Inr (tmpPath, fs1) \<Rightarrow>
                  (case fault fs OpWrite of
                     Some err \<Rightarrow> (Some (''write temp file: '' @ Error err), os_Remove tmpPath fs1)
                   | None \<Rightarrow>
                       (let fs2 = fs1\<lparr>files := (files fs1)(tmpPath \<mapsto> \<lparr>content = data, modTime = now\<rparr>)\<rparr>
                        in case fault fs OpSync of
                             Some err \<Rightarrow>
                               (Some (''sync temp file: '' @ Error err), os_Remove tmpPath fs2)
                           | None \<Rightarrow>
                               (case fault fs OpClose of
                                  Some err \<Rightarrow>
                                    (Some (''close temp file: '' @ Error err), os_Remove tmpPath fs2)
                                | None \<Rightarrow>
                                    (case os_Rename tmpPath finalPath fs2 of
                                       Inl err \<Rightarrow>
                                         (Some (''rename temp file: '' @ Error err),
                                          os_Remove tmpPath fs2)
                                     | Inr fs3 \<Rightarrow> (None, os_Remove tmpPath fs3)))))))"

text \<open>
  \<open>GetOrCreate\<close>. The generator is a function of the world outside the cache and
  returns its result with the world it leaves, or \<open>None\<close> when it does not return; the
  three instants are those of the two reads and of the write. A single caller finds the
  mutex of the key free, takes it after the first read and releases it on return. The
  result is the error or the bytes with the flag, the file system and the world.
\<close>

record instants =
  atFast :: int
  atRecheck :: int
  atWrite :: int

definition GetOrCreate ::
  "(string \<Rightarrow> bytes) \<Rightarrow> FileCache \<Rightarrow> string \<Rightarrow> ('w \<Rightarrow> ((string + bytes) \<times> 'w) option) \<Rightarrow>
   instants \<Rightarrow> filesys \<Rightarrow> 'w \<Rightarrow> ((string + bytes \<times> bool) \<times> filesys \<times> 'w) option" where
  "GetOrCreate sha c key generator ts fs w =
     (case Get sha c key (atFast ts) fs of
        Inl err \<Rightarrow> Some (Inl err, fs, w)
      | Inr (Some data) \<Rightarrow> Some (Inr (data, True), fs, w)
      | Inr None \<Rightarrow>
          (case Get sha c key (atRecheck ts) fs of
             Inl err \<Rightarrow> Some (Inl err, fs, w)
           | Inr (Some data) \<Rightarrow> Some (Inr (data, True), fs, w)
           | Inr None \<Rightarrow>
               (case generator w of
                  None \<Rightarrow> None
                | Some (Inl err, w') \<Rightarrow> Some (Inl err, fs, w')
                | Some (Inr data, w') \<Rightarrow>
                    (case writeFileAtomically sha c key data (atWrite ts) fs of
                       (Some err, fs') \<Rightarrow> Some (Inl err, fs', w')
                     | (None, fs') \<Rightarrow> Some (Inr (data, False), fs', w')))))"

section \<open>The worker pool\<close>

text \<open>
  The world outside one generation: the answer of the metadata API, the outcome of
  downloading and decoding each URL, and the library functions \<open>imaging.Fill\<close> and
  \<open>jpeg.Encode\<close>. A canvas is the sequence of its pastes.
\<close>

datatype api_reply = ApiError string | ApiReply int "string list"

datatype 'img canvas = New int int | Paste "'img canvas" 'img int int

record 'img outside =
  api :: api_reply
  download :: "string \<Rightarrow> string + 'img"
  Fill :: "'img \<Rightarrow> int \<Rightarrow> int \<Rightarrow> 'img"
  jpeg_Encode :: "'img canvas \<Rightarrow> string + bytes"

record ImageJob =
  Index :: nat
  UUID :: string
  URL :: string
  JobPicWidth :: int
  JobPicHeight :: int

text \<open>The fields \<open>Image\<close> and \<open>Error\<close>, of which a worker sets one, are one sum.\<close>

record 'img ImageResult =
  ResIndex :: nat
  Outcome :: "string + 'img"

text \<open>The dispatcher: \<open>for i, uuid := range pictureUUIDs\<close>, from position \<open>i\<close> on.\<close>

fun dispatch :: "nat \<Rightarrow> string list \<Rightarrow> GridDimensions \<Rightarrow> ImageJob list" where
  "dispatch i [] grid = []"
| "dispatch i (uuid # uuids) grid =
     (if int i \<ge> Cols grid * Rows grid then []
      else \<lparr>Index = i, UUID = uuid, URL = ''https://api.imreally.gay/assets/'' @ uuid,
            JobPicWidth = PicWidth grid, JobPicHeight = PicHeight grid\<rparr>
           # dispatch (Suc i) uuids grid)"

text \<open>The body of a worker's loop, for one job.\<close>

definition worker :: "'img outside \<Rightarrow> ImageJob \<Rightarrow> 'img ImageResult" where
  "worker out job =
     (case download out (URL job) of
        Inl err \<Rightarrow> \<lparr>ResIndex = Index job, Outcome = Inl err\<rparr>
      | Inr img \<Rightarrow>
          \<lparr>ResIndex = Index job,
           Outcome = Inr (Fill out img (JobPicWidth job) (JobPicHeight job))\<rparr>)"

text \<open>
  The collector: \<open>for i := 0; i < len(pictureUUIDs) && i < grid.Cols*grid.Rows; i++\<close>,
  from \<open>i\<close> on, reading from the results in the order of their arrival. It returns the
  mapping with the results it has not read; \<open>None\<close>: it waits for a result that never
  arrives.
\<close>

definition store :: "'img ImageResult \<Rightarrow> (nat \<rightharpoonup> 'img) \<Rightarrow> (nat \<rightharpoonup> 'img)" where
  "store result images =
     (case Outcome result of
        Inl err \<Rightarrow> images
      | Inr img \<Rightarrow> images(ResIndex result \<mapsto> img))"

function collect ::
  "nat \<Rightarrow> nat \<Rightarrow> GridDimensions \<Rightarrow> 'img ImageResult list \<Rightarrow> (nat \<rightharpoonup> 'img) \<Rightarrow>
   ((nat \<rightharpoonup> 'img) \<times> 'img ImageResult list) option" where
  "collect i len grid arrived images =
     (if i < len \<and> int i < Cols grid * Rows grid
      then (case arrived of
              [] \<Rightarrow> None
            | result # rest \<Rightarrow> collect (Suc i) len grid rest (store result images))
      else Some (images, arrived))"
  by pat_completeness auto
termination
  by (relation "measure (\<lambda>(i, len, grid, arrived, images). len - i)") auto

declare collect.simps [simp del]

text \<open>
  \<open>downloadImagesWithWorkerPool\<close>. The results reach the collector in the order in
  which the workers finish, which the scheduler decides: \<open>order\<close> rearranges the
  results of the dispatched jobs. Without a worker no job is taken from the queue and no
  result arrives.
\<close>

definition downloadImagesWithWorkerPool ::
  "'img outside \<Rightarrow> ('img ImageResult list \<Rightarrow> 'img ImageResult list) \<Rightarrow> string list \<Rightarrow>
   GridDimensions \<Rightarrow> int \<Rightarrow> ((nat \<rightharpoonup> 'img) \<times> 'img ImageResult list) option" where
  "downloadImagesWithWorkerPool out order pictureUUIDs grid maxWorkers =
     (let jobs = dispatch 0 pictureUUIDs grid;
          results = (if 0 < maxWorkers then order (map (worker out) jobs) else [])
      in collect 0 (length pictureUUIDs) grid results Map.empty)"

section \<open>The route handler\<close>

text \<open>The compositing loop \<open>for i := 0; i < grid.Cols*grid.Rows; i++\<close>, from \<open>i\<close> on.\<close>

definition rem :: "int \<Rightarrow> int \<Rightarrow> int" where
  "rem a b = a - b * quo a b"

function paste_all :: "nat \<Rightarrow> GridDimensions \<Rightarrow> (nat \<rightharpoonup> 'img) \<Rightarrow> 'img canvas \<Rightarrow> 'img canvas" where
  "paste_all i grid images combined =
     (if int i < Cols grid * Rows grid
      then (case images i of
              None \<Rightarrow> paste_all (Suc i) grid images combined
            | Some img \<Rightarrow>
                (let col = rem (int i) (Cols grid);
                     row = quo (int i) (Cols grid);
                     x = col * PicWidth grid;
                     y = row * PicHeight grid
                 in paste_all (Suc i) grid images (Paste combined img x y)))
      else combined)"
  by pat_completeness auto
termination
  by (relation "measure (\<lambda>(i, grid, images, combined). nat (Cols grid * Rows grid) - i)") auto

declare paste_all.simps [simp del]

text \<open>\<open>%d\<close> of \<open>fmt\<close>.\<close>

fun digits :: "nat \<Rightarrow> string" where
  "digits n = (if n < 10 then [char_of (48 + n)] else digits (n div 10) @ [char_of (48 + n mod 10)])"

declare digits.simps [simp del]

definition fmt_d :: "int \<Rightarrow> string" where
  "fmt_d i = (if i < 0 then CHR ''-'' # digits (nat (- i)) else digits (nat i))"

text \<open>
  The generator closure of the route, \<open>func() ([]byte, error)\<close>. The results of the
  pool are taken in the order of dispatch (the mapping does not depend on the order, see
  \<open>pool_order_irrelevant\<close>); a pool that does not return leaves the generator without
  a result (\<open>None\<close>).
\<close>

definition wall_generator :: "'img outside \<Rightarrow> ((string + bytes) \<times> 'img outside) option" where
  "wall_generator out =
     (case api out of
        ApiError err \<Rightarrow> Some (Inl (''api request: '' @ err), out)
      | ApiReply status pictures \<Rightarrow>
          if status \<noteq> 200 then Some (Inl (''api status '' @ fmt_d status), out)
          else (let pictureUUIDs = pictures
                in if length pictureUUIDs = 0 then Some (Inl ''no images found'', out)
                   else (let height = 2048; width = 1024;
                             picturecount = int (length pictureUUIDs);
                             grid = calculateOptimalGrid width height picturecount;
                             combined = New width height;
                             maxWorkers = 10
                         in case downloadImagesWithWorkerPool out (\<lambda>results. results)
                                   pictureUUIDs grid maxWorkers of
                              None \<Rightarrow> None
                            | Some (images, unread) \<Rightarrow>
                                (case jpeg_Encode out (paste_all 0 grid images combined) of
                                   Inl err \<Rightarrow> Some (Inl (''encode jpeg: '' @ err), out)
                                 | Inr buf \<Rightarrow> Some (Inr buf, out)))))"

record response =
  Status :: int
  Headers :: "(string \<times> string) list"
  Body :: bytes

definition Contains :: "string \<Rightarrow> string \<Rightarrow> bool" where
  "Contains s substr \<longleftrightarrow> sublist substr s"

text \<open>
  The handler: \<open>respond\<close> is its part from the result of \<open>cache.GetOrCreate\<close> on,
  \<open>route\<close> the whole, with the cache that \<open>main\<close> creates.
\<close>

definition respond :: "string + bytes \<times> bool \<Rightarrow> response" where
  "respond r =
     (case r of
        Inl err \<Rightarrow>
          if Contains err ''no images found''
          then \<lparr>Status = 404, Headers = [], Body = ''No images found''\<rparr>
          else \<lparr>Status = 500, Headers = [], Body = ''Failed to generate image''\<rparr>
      | Inr (data, fromCache) \<Rightarrow>
          \<lparr>Status = 200,
           Headers = [(''Content-Type'', ''image/jpeg''),
                      (''Content-Length'', fmt_d (int (length data))),
                      (''X-Cache'', if fromCache then ''HIT'' else ''MISS'')],
           Body = data\<rparr>)"

definition wall_cache :: FileCache where
  "wall_cache = \<lparr>Dir = ''cache'', TTL = 24 * 3600 * 1000000000\<rparr>"

definition route ::
  "(string \<Rightarrow> bytes) \<Rightarrow> instants \<Rightarrow> filesys \<Rightarrow> 'img outside \<Rightarrow> (response \<times> filesys) option" where
  "route sha ts fs out =
     (case GetOrCreate sha wall_cache ''wall'' wall_generator ts fs out of
        None \<Rightarrow> None
      | Some (r, fs', out') \<Rightarrow> Some (respond r, fs'))"

text \<open>
  Two conditions on the file system: no operating-system call fails, and one of the
  names that \<open>os.CreateTemp\<close> tries is free in the cache directory.
\<close>

definition no_faults :: "filesys \<Rightarrow> bool" where
  "no_faults fs \<longleftrightarrow> (\<forall>op. fault fs op = None)"

definition temp_free :: "filesys \<Rightarrow> FileCache \<Rightarrow> bool" where
  "temp_free fs c \<longleftrightarrow> (\<exists>r\<in>set (tmpNames fs). files fs (Dir c @ ''/tmp-'' @ r) = None)"

section \<open>Concurrent calls of GetOrCreate\<close>

text \<open>
  Calls of \<open>GetOrCreate\<close> for one key that run in parallel, as a transition system. A
  call is at one of six places: before its first read, waiting for the mutex of the key
  (\<open>getPerKeyMutex\<close> gives every call of the key the same mutex), holding it before the
  second read, about to run the generator, about to write the bytes of the generator, or
  returned. Each action of a call is one step: a read, taking the mutex, the run of the
  generator, the write. The write is one step since the other calls only read the
  artifact, which \<open>os.Rename\<close> replaces at once. \<open>calls\<close> counts the runs of the
  generator.
\<close>

datatype place = Start | AwaitLock | Locked | Generating | Writing bytes
  | Done "string + bytes \<times> bool"

record 'w race =
  disk :: filesys
  world :: 'w
  holder :: "nat option"
  places :: "nat \<Rightarrow> place"
  clock :: int
  calls :: nat

definition act ::
  "(string \<Rightarrow> bytes) \<Rightarrow> FileCache \<Rightarrow> string \<Rightarrow> ('w \<Rightarrow> ((string + bytes) \<times> 'w) option) \<Rightarrow>
   nat \<Rightarrow> 'w race \<Rightarrow> 'w race" where
  "act sha c key generator t s =
     (case places s t of
        Start \<Rightarrow>
          (case Get sha c key (clock s) (disk s) of
             Inl err \<Rightarrow> s\<lparr>places := (places s)(t := Done (Inl err))\<rparr>
           | Inr (Some data) \<Rightarrow> s\<lparr>places := (places s)(t := Done (Inr (data, True)))\<rparr>
           | Inr None \<Rightarrow> s\<lparr>places := (places s)(t := AwaitLock)\<rparr>)
      | AwaitLock \<Rightarrow>
          (case holder s of
             None \<Rightarrow> s\<lparr>holder := Some t, places := (places s)(t := Locked)\<rparr>
           | Some h \<Rightarrow> s)
      | Locked \<Rightarrow>
          (case Get sha c key (clock s) (disk s) of
             Inl err \<Rightarrow> s\<lparr>holder := None, places := (places s)(t := Done (Inl err))\<rparr>
           | Inr (Some data) \<Rightarrow>
               s\<lparr>holder := None, places := (places s)(t := Done (Inr (data, True)))\<rparr>
           | Inr None \<Rightarrow> s\<lparr>places := (places s)(t := Generating)\<rparr>)
      | Generating \<Rightarrow>
          (case generator (world s) of
             None \<Rightarrow> s
           | Some (Inl err, w') \<Rightarrow>
               s\<lparr>world := w', holder := None, places := (places s)(t := Done (Inl err)),
                 calls := Suc (calls s)\<rparr>
           | Some (Inr data, w') \<Rightarrow>
               s\<lparr>world := w', places := (places s)(t := Writing data), calls := Suc (calls s)\<rparr>)
      | Writing data \<Rightarrow>
          (case writeFileAtomically sha c key data (clock s) (disk s) of
             (Some err, fs') \<Rightarrow>
               s\<lparr>disk := fs', holder := None, places := (places s)(t := Done (Inl err))\<rparr>
           | (None, fs') \<Rightarrow>
               s\<lparr>disk := fs', holder := None,
                 places := (places s)(t := Done (Inr (data, False)))\<rparr>)
      | Done r \<Rightarrow> s)"

text \<open>A schedule: which call acts next, and how much time passes in between.\<close>

datatype event = Act nat | Tick nat

fun elapsed :: "event list \<Rightarrow> int" where
  "elapsed [] = 0"
| "elapsed (Act t # es) = elapsed es"
| "elapsed (Tick d # es) = int d + elapsed es"

fun run ::
  "(string \<Rightarrow> bytes) \<Rightarrow> FileCache \<Rightarrow> string \<Rightarrow> ('w \<Rightarrow> ((string + bytes) \<times> 'w) option) \<Rightarrow>
   event list \<Rightarrow> 'w race \<Rightarrow> 'w race" where
  "run sha c key generator [] s = s"
| "run sha c key generator (Act t # es) s =
     run sha c key generator es (act sha c key generator t s)"
| "run sha c key generator (Tick d # es) s =
     run sha c key generator es (s\<lparr>clock := clock s + int d\<rparr>)"

definition race0 :: "filesys \<Rightarrow> 'w \<Rightarrow> int \<Rightarrow> 'w race" where
  "race0 fs w now =
     \<lparr>disk = fs, world = w, holder = None, places = (\<lambda>t. Start), clock = now, calls = 0\<rparr>"

text \<open>The mutex: its holder is the one call between taking it and returning.\<close>

definition in_lock :: "place \<Rightarrow> bool" where
  "in_lock p \<longleftrightarrow> (case p of Locked \<Rightarrow> True | Generating \<Rightarrow> True | Writing d \<Rightarrow> True | _ \<Rightarrow> False)"

definition mutex_ok :: "'w race \<Rightarrow> bool" where
  "mutex_ok s \<longleftrightarrow> (\<forall>t. in_lock (places s t) \<longleftrightarrow> holder s = Some t)"

text \<open>
  The three phases of a race in which the generator gives \<open>data\<close> on the world \<open>w0\<close>:
  before the run of the generator, between the run and the write, and after the write.
\<close>

definition before_run :: "filesys \<Rightarrow> 'w \<Rightarrow> 'w race \<Rightarrow> bool" where
  "before_run fs0 w0 s \<longleftrightarrow>
     calls s = 0 \<and> disk s = fs0 \<and> world s = w0 \<and>
     (\<forall>t. places s t \<in> {Start, AwaitLock, Locked, Generating})"

definition before_write :: "filesys \<Rightarrow> 'w \<Rightarrow> bytes \<Rightarrow> 'w race \<Rightarrow> bool" where
  "before_write fs0 w1 data s \<longleftrightarrow>
     calls s = 1 \<and> disk s = fs0 \<and> world s = w1 \<and> holder s \<noteq> None \<and>
     (\<forall>t. places s t \<in> {Start, AwaitLock, Writing data})"

definition after_write ::
  "(string \<Rightarrow> bytes) \<Rightarrow> FileCache \<Rightarrow> string \<Rightarrow> filesys \<Rightarrow> 'w \<Rightarrow> bytes \<Rightarrow> int \<Rightarrow> 'w race \<Rightarrow> bool" where
  "after_write sha c key fs0 w1 data t0 s \<longleftrightarrow>
     calls s = 1 \<and> world s = w1 \<and>
     (\<exists>tw. t0 \<le> tw \<and> tw \<le> clock s \<and>
        disk s = fs0\<lparr>files := (files fs0)(filePath sha c key \<mapsto> \<lparr>content = data, modTime = tw\<rparr>)\<rparr>) \<and>
     (\<forall>t. places s t \<in> {Start, AwaitLock, Locked, Done (Inr (data, True)), Done (Inr (data, False))}) \<and>
     (\<forall>t t'. places s t = Done (Inr (data, False)) \<and> places s t' = Done (Inr (data, False)) \<longrightarrow> t = t')"

definition race_inv ::
  "(string \<Rightarrow> bytes) \<Rightarrow> FileCache \<Rightarrow> string \<Rightarrow> filesys \<Rightarrow> 'w \<Rightarrow> 'w \<Rightarrow> bytes \<Rightarrow> int \<Rightarrow> 'w race \<Rightarrow> bool" where
  "race_inv sha c key fs0 w0 w1 data t0 s \<longleftrightarrow>
     mutex_ok s \<and> t0 \<le> clock s \<and>
     (before_run fs0 w0 s \<or> before_write fs0 w1 data s \<or> after_write sha c key fs0 w1 data t0 s)"

section \<open>Properties of the grid planner\<close>

lemma quo_nonneg: "0 \<le> a \<Longrightarrow> 0 < b \<Longrightarrow> quo a b = a div b"
  by (simp add: quo_def sgn_if)

lemma rowsFor_pos: "1 \<le> c \<Longrightarrow> c \<le> n \<Longrightarrow> 1 \<le> rowsFor n c"
proof -
  assume c: "1 \<le> c" "c \<le> n"
  then have "0 < (of_int n :: rat) / of_int c" by simp
  then have "0 < \<lceil>(of_int n :: rat) / of_int c\<rceil>" by (simp add: less_ceiling_iff)
  then show ?thesis by (simp add: rowsFor_def)
qed

lemma grid_loop_invariant:
  assumes "P c b"
    and "\<And>c b. c \<le> n \<Longrightarrow> P c b \<Longrightarrow> P (c + 1) (grid_body cw ch n c b)"
    and "c \<le> n + 1"
  shows "P (n + 1) (grid_loop cw ch n c b)"
  using assms
proof (induction cw ch n c b rule: grid_loop.induct)
  case (1 cw ch n c b)
  show ?case
  proof (cases "c \<le> n")
    case True
    have "P (c + 1) (grid_body cw ch n c b)" using 1(2,3) True by blast
    then have "P (n + 1) (grid_loop cw ch n (c + 1) (grid_body cw ch n c b))"
      using 1(1)[OF True] 1(3) True by simp
    then show ?thesis using True by (subst grid_loop.simps) simp
  next
    case False
    then have "c = n + 1" using 1(4) by simp
    then show ?thesis using 1(2) False by (subst grid_loop.simps) simp
  qed
qed

lemma grid_body_candidate:
  "grid_body cw ch n c b =
     (case candidate cw ch n c of None \<Rightarrow> b
      | Some g \<Rightarrow> consider_cand (util_of cw ch g) (Cols g) (Rows g) (PicWidth g) (PicHeight g) b)"
  by (simp add: grid_body_def candidate_def util_of_def Let_def)

lemma calculateOptimalGrid_grid_of:
  "calculateOptimalGrid cw ch n = grid_of (grid_loop cw ch n 1 best0)"
  by (simp add: calculateOptimalGrid_def grid_of_def Let_def)

text \<open>What the fit checks give for a candidate.\<close>

lemma candidate_props:
  assumes "1 \<le> cw" "1 \<le> ch" "1 \<le> c" "c \<le> n" "candidate cw ch n c = Some g"
  shows "Cols g = c" "1 \<le> Rows g" "0 \<le> PicWidth g" "0 \<le> PicHeight g"
    "Cols g * PicWidth g \<le> cw" "Rows g * PicHeight g \<le> ch"
    "PicHeight g = 2 * PicWidth g \<or> PicHeight g = 2 * PicWidth g + 1"
proof -
  define r where "r = rowsFor n c"
  have r: "1 \<le> r" unfolding r_def using assms(3,4) by (rule rowsFor_pos)
  have tw: "quo cw c = cw div c" using assms by (simp add: quo_nonneg)
  have th: "quo ch r = ch div r" using assms r by (simp add: quo_nonneg)
  have th0: "0 \<le> ch div r" using assms r by (simp add: pos_imp_zdiv_nonneg_iff)
  have tw0: "0 \<le> cw div c" using assms by (simp add: pos_imp_zdiv_nonneg_iff)
  have h2: "quo (ch div r) 2 = ch div r div 2" using th0 by (simp add: quo_nonneg)
  have cw_le: "c * (cw div c) \<le> cw" using assms(3)
    by (metis mult_div_mod_eq pos_mod_sign le_add_same_cancel1 less_le_trans zero_less_one)
  have ch_le: "r * (ch div r) \<le> ch" using r
    by (metis mult_div_mod_eq pos_mod_sign le_add_same_cancel1 less_le_trans zero_less_one)
  have g: "g = (if ch div r > 2 * (cw div c)
      then \<lparr>Cols = c, Rows = r, PicWidth = cw div c, PicHeight = 2 * (cw div c)\<rparr>
      else \<lparr>Cols = c, Rows = r, PicWidth = ch div r div 2, PicHeight = ch div r\<rparr>)"
    and fit: "if ch div r > 2 * (cw div c) then 2 * (cw div c) * r \<le> ch
              else ch div r div 2 * c \<le> cw"
    using assms(5) by (auto simp: candidate_def Let_def r_def[symmetric] tw th h2 split: if_splits)
  show "Cols g = c" using g by simp
  show "1 \<le> Rows g" using g r by simp
  show "0 \<le> PicWidth g" using g tw0 th0 by (simp add: pos_imp_zdiv_nonneg_iff)
  show "0 \<le> PicHeight g" using g tw0 th0 by simp
  show "Cols g * PicWidth g \<le> cw" using g fit cw_le by (simp add: mult.commute split: if_splits)
  show "Rows g * PicHeight g \<le> ch" using g fit ch_le by (simp add: mult.commute mult.left_commute split: if_splits)
  show "PicHeight g = 2 * PicWidth g \<or> PicHeight g = 2 * PicWidth g + 1"
  proof -
    have par: "x = 2 * (x div 2) \<or> x = 2 * (x div 2) + 1" for x :: int by presburger
    show ?thesis using g par[of "ch div r"] by (simp split: if_splits)
  qed
qed

lemma util_of_pos_iff:
  assumes "1 \<le> cw" "1 \<le> ch"
  shows "0 < util_of cw ch g \<longleftrightarrow> 0 < PicWidth g * Cols g * PicHeight g * Rows g"
proof -
  define X where "X = PicWidth g * Cols g * PicHeight g * Rows g"
  have "0 < cw * ch" using assms by simp
  then have d: "0 < (of_int (cw * ch) :: rat)" by (simp only: of_int_0_less_iff)
  have "0 < (of_int X :: rat) / of_int (cw * ch) \<longleftrightarrow> 0 < (of_int X :: rat)"
    using d by (simp only: zero_less_divide_iff) auto
  also have "\<dots> \<longleftrightarrow> 0 < X" by (rule of_int_0_less_iff)
  finally show ?thesis unfolding util_of_def utilization_def X_def .
qed

lemma candidate_pos:
  assumes "1 \<le> cw" "1 \<le> ch" "1 \<le> c" "c \<le> n" "candidate cw ch n c = Some g"
    "0 < util_of cw ch g"
  shows "0 < PicWidth g" "0 < PicHeight g"
proof -
  note p = candidate_props[OF assms(1-5)]
  have pos: "0 < PicWidth g * Cols g * PicHeight g * Rows g"
    using assms(1,2,6) by (simp add: util_of_pos_iff)
  have "PicWidth g \<noteq> 0" "PicHeight g \<noteq> 0" using pos by auto
  then show "0 < PicWidth g" "0 < PicHeight g" using p(3,4) by simp_all
qed

lemma sound_best0: "sound cw ch best0"
  by (simp add: sound_def best0_def grid_of_def zero_grid_def util_of_def utilization_def)

lemma sound_body:
  assumes "1 \<le> cw" "1 \<le> ch" "1 \<le> c" "c \<le> n" "sound cw ch b"
  shows "sound cw ch (grid_body cw ch n c b)"
proof (cases "candidate cw ch n c")
  case None
  then show ?thesis using assms(5) by (simp add: grid_body_candidate)
next
  case (Some g)
  note p = candidate_props[OF assms(1-4) Some]
  show ?thesis
  proof (cases "util_of cw ch g > bestFit b")
    case False
    then show ?thesis using assms(5) Some by (simp add: grid_body_candidate consider_cand_def)
  next
    case True
    have "0 \<le> bestFit b" using assms(5) by (auto simp: sound_def)
    then have u: "0 < util_of cw ch g" using True by simp
    note q = candidate_pos[OF assms(1-4) Some u]
    have eq: "grid_body cw ch n c b = \<lparr>bestFit = util_of cw ch g, bestCols = Cols g, bestRows = Rows g,
       bestPicWidth = PicWidth g, bestPicHeight = PicHeight g\<rparr>"
      using True Some by (simp add: grid_body_candidate consider_cand_def)
    show ?thesis unfolding eq sound_def using p q u assms(3)
      by (simp add: grid_of_def util_of_def)
  qed
qed

lemma sound_loop:
  assumes "1 \<le> cw" "1 \<le> ch" "1 \<le> n"
  shows "sound cw ch (grid_loop cw ch n 1 best0)"
proof -
  have "(\<lambda>c b. 1 \<le> c \<and> sound cw ch b) (n + 1) (grid_loop cw ch n 1 best0)"
  proof (rule grid_loop_invariant)
    show "1 \<le> (1::int) \<and> sound cw ch best0" by (simp add: sound_best0)
    show "1 \<le> n + 1" using assms by simp
    show "\<And>c b. c \<le> n \<Longrightarrow> 1 \<le> c \<and> sound cw ch b \<Longrightarrow> 1 \<le> c + 1 \<and> sound cw ch (grid_body cw ch n c b)"
      using assms sound_body by simp
  qed
  then show ?thesis by simp
qed





text \<open>
  What holds of every returned spec on a canvas of at least one pixel each way: it is the
  zero spec, or its fields are positive, it fits the canvas, and its height is twice its
  width or one more.
\<close>

lemma calculateOptimalGrid_sound:
  assumes "1 \<le> canvasWidth" "1 \<le> canvasHeight" "1 \<le> pictureCount"
  shows "sound canvasWidth canvasHeight (grid_loop canvasWidth canvasHeight pictureCount 1 best0)"
  using assms by (rule sound_loop)

text \<open>
  Claim C1 (every returned spec is the zero spec or satisfies
  \<open>Cols * PicWidth \<le> canvasWidth\<close>, \<open>Rows * PicHeight \<le> canvasHeight\<close> and
  \<open>PicHeight = 2 * PicWidth\<close>) fails on the canvas the server uses: for 1024 by 2048
  pixels and 17 pictures the planner returns 4 columns and 5 rows of tiles 204 wide and
  409 high. The height-limited branch halves an odd height with integer division, so the
  tile is one pixel higher than twice its width, although the log line of the function
  says that the ratio is maintained and the width-limited branch doubles the width.
\<close>

theorem calculateOptimalGrid_17_pictures:
  "calculateOptimalGrid 1024 2048 17 = \<lparr>Cols = 4, Rows = 5, PicWidth = 204, PicHeight = 409\<rparr> \<and>
   PicHeight (calculateOptimalGrid 1024 2048 17) \<noteq> 2 * PicWidth (calculateOptimalGrid 1024 2048 17)"
proof -
  have e: "calculateOptimalGrid 1024 2048 17
      = \<lparr>Cols = 4, Rows = 5, PicWidth = 204, PicHeight = 409\<rparr>"
    by code_simp
  show ?thesis unfolding e by simp
qed






section \<open>Properties of the file cache\<close>

text \<open>The cache that \<open>main\<close> creates: \<open>NewFileCache("cache", 24*time.Hour)\<close>.\<close>

lemma NewFileCache_wall_cache:
  "fault fs OpMkdirAll = None \<Longrightarrow>
     NewFileCache ''cache'' (24 * 3600 * 1000000000) fs = Inr wall_cache"
  by (simp add: NewFileCache_def wall_cache_def)

lemma hexdigit_not_t: "hexdigit n \<noteq> CHR ''t''"
proof -
  have "n mod 16 < length ''0123456789abcdef''" by simp
  then have "hexdigit n \<in> set ''0123456789abcdef''"
    unfolding hexdigit_def by (rule nth_mem)
  then show ?thesis by auto
qed

lemma filePath_not_temp: "filePath sha c key \<noteq> Dir c @ ''/tmp-'' @ r"
proof (cases "take 16 (sha key)")
  case Nil
  then show ?thesis by (simp add: filePath_def EncodeToString_def)
next
  case (Cons b bs)
  then show ?thesis using hexdigit_not_t by (simp add: filePath_def EncodeToString_def)
qed

lemma os_CreateTemp_ok:
  assumes "fault fs OpCreateTemp = None" "temp_free fs c"
  shows "\<exists>r. files fs (Dir c @ ''/tmp-'' @ r) = None \<and>
     os_CreateTemp fs (Dir c) now =
       Inr (Dir c @ ''/tmp-'' @ r,
            fs\<lparr>files := (files fs)(Dir c @ ''/tmp-'' @ r \<mapsto> \<lparr>content = [], modTime = now\<rparr>)\<rparr>)"
proof -
  let ?ps = "map (\<lambda>r. Dir c @ ''/tmp-'' @ r) (tmpNames fs)"
  have "\<exists>p\<in>set ?ps. files fs p = None" using assms(2) by (auto simp: temp_free_def)
  then obtain p where f: "find (\<lambda>p. files fs p = None) ?ps = Some p"
    by (cases "find (\<lambda>p. files fs p = None) ?ps") (auto simp: find_None_iff)
  then have "p \<in> set ?ps" and n: "files fs p = None"
    by (auto simp: find_Some_iff)
  then obtain r where r: "p = Dir c @ ''/tmp-'' @ r" by auto
  show ?thesis using f n assms(1) unfolding r
    by (intro exI[of _ r]) (simp add: os_CreateTemp_def)
qed

lemma writeFileAtomically_ok:
  assumes "no_faults fs" "temp_free fs c"
  shows "writeFileAtomically sha c key data now fs =
     (None, fs\<lparr>files := (files fs)(filePath sha c key \<mapsto> \<lparr>content = data, modTime = now\<rparr>)\<rparr>)"
proof -
  have nf: "fault fs op = None" for op using assms(1) by (simp add: no_faults_def)
  obtain r where free0: "files fs (Dir c @ ''/tmp-'' @ r) = None"
    and ct0: "os_CreateTemp fs (Dir c) now =
       Inr (Dir c @ ''/tmp-'' @ r,
            fs\<lparr>files := (files fs)(Dir c @ ''/tmp-'' @ r \<mapsto> \<lparr>content = [], modTime = now\<rparr>)\<rparr>)"
    using os_CreateTemp_ok[OF nf assms(2)] by blast
  define p where "p = Dir c @ ''/tmp-'' @ r"
  have free: "files fs p = None" and ne: "filePath sha c key \<noteq> p"
    and ct: "os_CreateTemp fs (Dir c) now =
       Inr (p, fs\<lparr>files := (files fs)(p \<mapsto> \<lparr>content = [], modTime = now\<rparr>)\<rparr>)"
    unfolding p_def using free0 ct0 filePath_not_temp by simp_all
  have upd: "((files fs)(filePath sha c key \<mapsto> v))(p := None) = (files fs)(filePath sha c key \<mapsto> v)" for v
    using free ne by (auto simp: fun_eq_iff)
  show ?thesis
    using ne free
    by (simp add: writeFileAtomically_def nf ct os_Rename_def os_Remove_def Let_def upd
        fun_upd_twist)
qed

lemma Get_cases:
  "Get sha c key now fs =
     (case fault fs OpStat of
        Some err \<Rightarrow> if err = ErrNotExist then Inr None else Inl (''stat cache file: '' @ Error err)
      | None \<Rightarrow>
         (case files fs (filePath sha c key) of
            None \<Rightarrow> Inr None
          | Some f \<Rightarrow>
              if content f = [] \<or> now - modTime f > TTL c then Inr None
              else (case fault fs OpOpen of
                      Some err \<Rightarrow> if err = ErrNotExist then Inr None
                                  else Inl (''open cache file: '' @ Error err)
                    | None \<Rightarrow>
                       (case fault fs OpRead of
                          Some err \<Rightarrow> Inl (''read cache file: '' @ Error err)
                        | None \<Rightarrow> Inr (Some (content f))))))"
  by (simp add: Get_def os_Stat_def os_Open_def io_ReadAll_def IsNotExist_def Let_def
      split: option.splits)

lemma Get_miss_mono:
  assumes "Get sha c key now fs = Inr None" "now \<le> now'"
  shows "Get sha c key now' fs = Inr None"
  using assms unfolding Get_cases
  by (auto split: option.splits if_splits)

lemma Get_hit_data:
  assumes "Get sha c key now fs = Inr (Some data)"
  shows "\<exists>f. files fs (filePath sha c key) = Some f \<and> content f = data \<and> data \<noteq> [] \<and>
             now - modTime f \<le> TTL c"
  using assms unfolding Get_cases
  by (auto split: option.splits if_splits)

lemma Get_no_faults:
  assumes "no_faults fs"
  shows "Get sha c key now fs =
     (case files fs (filePath sha c key) of
        None \<Rightarrow> Inr None
      | Some f \<Rightarrow> if content f = [] \<or> now - modTime f > TTL c then Inr None
                  else Inr (Some (content f)))"
  using assms unfolding Get_cases no_faults_def by (simp split: option.splits)

lemma GetOrCreate_miss:
  assumes "Get sha c key (atFast ts) fs = Inr None" "atFast ts \<le> atRecheck ts"
  shows "GetOrCreate sha c key generator ts fs w =
     (case generator w of
        None \<Rightarrow> None
      | Some (Inl err, w') \<Rightarrow> Some (Inl err, fs, w')
      | Some (Inr data, w') \<Rightarrow>
          (case writeFileAtomically sha c key data (atWrite ts) fs of
             (Some err, fs') \<Rightarrow> Some (Inl err, fs', w')
           | (None, fs') \<Rightarrow> Some (Inr (data, False), fs', w')))"
  using assms(1) Get_miss_mono[OF assms]
  by (simp add: GetOrCreate_def)



text \<open>
  Claim C6: when the reads of \<open>GetOrCreate\<close> miss and the generator returns an error,
  \<open>GetOrCreate\<close> returns that error and leaves the file system as it was, and the next
  call for the key runs the generator again, on the world the first run left.
\<close>

theorem GetOrCreate_generator_error:
  assumes "Get sha c key (atFast ts) fs = Inr None" "atFast ts \<le> atRecheck ts"
    and "generator w = Some (Inl err, w')"
    and "atRecheck ts \<le> atFast ts'" "atFast ts' \<le> atRecheck ts'"
  shows "GetOrCreate sha c key generator ts fs w = Some (Inl err, fs, w') \<and>
         GetOrCreate sha c key generator ts' fs w' =
           (case generator w' of
              None \<Rightarrow> None
            | Some (Inl err', w'') \<Rightarrow> Some (Inl err', fs, w'')
            | Some (Inr data, w'') \<Rightarrow>
                (case writeFileAtomically sha c key data (atWrite ts') fs of
                   (Some err', fs') \<Rightarrow> Some (Inl err', fs', w'')
                 | (None, fs') \<Rightarrow> Some (Inr (data, False), fs', w'')))"
proof
  show "GetOrCreate sha c key generator ts fs w = Some (Inl err, fs, w')"
    using assms(3) by (simp add: GetOrCreate_miss[OF assms(1,2)])
  have "atFast ts \<le> atFast ts'" using assms(2,4) by simp
  then have m: "Get sha c key (atFast ts') fs = Inr None"
    using assms(1) Get_miss_mono by blast
  show "GetOrCreate sha c key generator ts' fs w' =
           (case generator w' of
              None \<Rightarrow> None
            | Some (Inl err', w'') \<Rightarrow> Some (Inl err', fs, w'')
            | Some (Inr data, w'') \<Rightarrow>
                (case writeFileAtomically sha c key data (atWrite ts') fs of
                   (Some err', fs') \<Rightarrow> Some (Inl err', fs', w'')
                 | (None, fs') \<Rightarrow> Some (Inr (data, False), fs', w'')))"
    by (rule GetOrCreate_miss[OF m assms(5)])
qed

theorem GetOrCreate_generator_error_witness:
  "Get (\<lambda>k. k) \<lparr>Dir = ''cache'', TTL = 1000\<rparr> ''wall'' 5
     \<lparr>files = Map.empty, fault = (\<lambda>op. None), tmpNames = [''1'']\<rparr> = Inr None \<and>
   GetOrCreate (\<lambda>k. k) \<lparr>Dir = ''cache'', TTL = 1000\<rparr> ''wall'' (\<lambda>n::nat. Some (Inl ''api status 503'', Suc n))
     \<lparr>atFast = 5, atRecheck = 6, atWrite = 7\<rparr>
     \<lparr>files = Map.empty, fault = (\<lambda>op. None), tmpNames = [''1'']\<rparr> 0
   = Some (Inl ''api status 503'',
           \<lparr>files = Map.empty, fault = (\<lambda>op. None), tmpNames = [''1'']\<rparr>, 1) \<and>
   GetOrCreate (\<lambda>k. k) \<lparr>Dir = ''cache'', TTL = 1000\<rparr> ''wall'' (\<lambda>n::nat. Some (Inl ''api status 503'', Suc n))
     \<lparr>atFast = 8, atRecheck = 9, atWrite = 10\<rparr>
     \<lparr>files = Map.empty, fault = (\<lambda>op. None), tmpNames = [''1'']\<rparr> 1
   = Some (Inl ''api status 503'',
           \<lparr>files = Map.empty, fault = (\<lambda>op. None), tmpNames = [''1'']\<rparr>, 2)"
proof -
  let ?fs = "\<lparr>files = Map.empty, fault = (\<lambda>op. None), tmpNames = [''1'']\<rparr>"
  let ?c = "\<lparr>Dir = ''cache'', TTL = 1000\<rparr>"
  let ?g = "\<lambda>n::nat. Some (Inl ''api status 503'' :: string + bytes, Suc n)"
  have m: "Get (\<lambda>k. k) ?c ''wall'' 5 ?fs = Inr None"
    by (simp add: Get_def os_Stat_def IsNotExist_def)
  show ?thesis
    using GetOrCreate_generator_error[where sha = "\<lambda>k. k" and c = ?c and key = "''wall''"
        and ts = "\<lparr>atFast = 5, atRecheck = 6, atWrite = 7\<rparr>" and fs = ?fs and generator = ?g
        and w = 0 and err = "''api status 503''" and w' = 1
        and ts' = "\<lparr>atFast = 8, atRecheck = 9, atWrite = 10\<rparr>"] m
    by simp
qed

text \<open>
  Claim C10: when the reads of \<open>GetOrCreate\<close> miss and the generator returns no bytes
  (and no operating-system call fails), \<open>GetOrCreate\<close> stores an artifact of length
  zero and returns the empty bytes as a miss; from then on the read of the key misses at
  every instant, and every later call runs the generator again.
\<close>

theorem GetOrCreate_empty_never_hit:
  assumes "Get sha c key (atFast ts) fs = Inr None" "atFast ts \<le> atRecheck ts"
    and "generator w = Some (Inr [], w')"
    and "no_faults fs" "temp_free fs c"
  defines "fs' \<equiv> fs\<lparr>files := (files fs)(filePath sha c key \<mapsto> \<lparr>content = [], modTime = atWrite ts\<rparr>)\<rparr>"
  shows "GetOrCreate sha c key generator ts fs w = Some (Inr ([], False), fs', w') \<and>
         Get sha c key now fs' = Inr None \<and>
         GetOrCreate sha c key generator ts' fs' w' =
           (case generator w' of
              None \<Rightarrow> None
            | Some (Inl err', w'') \<Rightarrow> Some (Inl err', fs', w'')
            | Some (Inr data, w'') \<Rightarrow>
                (case writeFileAtomically sha c key data (atWrite ts') fs' of
                   (Some err', fs'') \<Rightarrow> Some (Inl err', fs'', w'')
                 | (None, fs'') \<Rightarrow> Some (Inr (data, False), fs'', w'')))"
proof (intro conjI)
  show "GetOrCreate sha c key generator ts fs w = Some (Inr ([], False), fs', w')"
    using assms(3) unfolding assms(6)
    by (simp add: GetOrCreate_miss[OF assms(1,2)] writeFileAtomically_ok[OF assms(4,5)])
  have nf: "no_faults fs'" using assms(4) unfolding assms(6) by (simp add: no_faults_def)
  show m: "Get sha c key now fs' = Inr None" for now
    unfolding Get_no_faults[OF nf] unfolding assms(6) by simp
  show "GetOrCreate sha c key generator ts' fs' w' =
           (case generator w' of
              None \<Rightarrow> None
            | Some (Inl err', w'') \<Rightarrow> Some (Inl err', fs', w'')
            | Some (Inr data, w'') \<Rightarrow>
                (case writeFileAtomically sha c key data (atWrite ts') fs' of
                   (Some err', fs'') \<Rightarrow> Some (Inl err', fs'', w'')
                 | (None, fs'') \<Rightarrow> Some (Inr (data, False), fs'', w'')))"
    using m[of "atFast ts'"] m[of "atRecheck ts'"] by (simp add: GetOrCreate_def)
qed

theorem GetOrCreate_empty_never_hit_witness:
  "Get (\<lambda>k. k) \<lparr>Dir = ''cache'', TTL = 1000\<rparr> ''wall'' 5
     \<lparr>files = Map.empty, fault = (\<lambda>op. None), tmpNames = [''1'']\<rparr> = Inr None \<and>
   GetOrCreate (\<lambda>k. k) \<lparr>Dir = ''cache'', TTL = 1000\<rparr> ''wall'' (\<lambda>n::nat. Some (Inr [], Suc n))
     \<lparr>atFast = 5, atRecheck = 6, atWrite = 7\<rparr>
     \<lparr>files = Map.empty, fault = (\<lambda>op. None), tmpNames = [''1'']\<rparr> 0
   = Some (Inr ([], False),
           \<lparr>files = [''cache/77616c6c.bin'' \<mapsto> \<lparr>content = [], modTime = 7\<rparr>],
            fault = (\<lambda>op. None), tmpNames = [''1'']\<rparr>, 1) \<and>
   GetOrCreate (\<lambda>k. k) \<lparr>Dir = ''cache'', TTL = 1000\<rparr> ''wall'' (\<lambda>n::nat. Some (Inr [], Suc n))
     \<lparr>atFast = 8, atRecheck = 9, atWrite = 10\<rparr>
     \<lparr>files = [''cache/77616c6c.bin'' \<mapsto> \<lparr>content = [], modTime = 7\<rparr>],
      fault = (\<lambda>op. None), tmpNames = [''1'']\<rparr> 1
   = Some (Inr ([], False),
           \<lparr>files = [''cache/77616c6c.bin'' \<mapsto> \<lparr>content = [], modTime = 10\<rparr>],
            fault = (\<lambda>op. None), tmpNames = [''1'']\<rparr>, 2)"
proof -
  let ?fs = "\<lparr>files = Map.empty, fault = (\<lambda>op. None), tmpNames = [''1'']\<rparr>"
  let ?c = "\<lparr>Dir = ''cache'', TTL = 1000\<rparr>"
  let ?g = "\<lambda>n::nat. Some (Inr [] :: string + bytes, Suc n)"
  let ?ts = "\<lparr>atFast = 5, atRecheck = 6, atWrite = 7\<rparr>"
  let ?ts' = "\<lparr>atFast = 8, atRecheck = 9, atWrite = 10\<rparr>"
  have m: "Get (\<lambda>k. k) ?c ''wall'' 5 ?fs = Inr None"
    by (simp add: Get_def os_Stat_def IsNotExist_def)
  have nf: "no_faults ?fs" by (simp add: no_faults_def)
  have tf: "temp_free ?fs ?c" by (simp add: temp_free_def)
  have p: "filePath (\<lambda>k. k) ?c ''wall'' = ''cache/77616c6c.bin''"
    by (simp add: filePath_def EncodeToString_def hexdigit_def)
  note t = GetOrCreate_empty_never_hit[where sha = "\<lambda>k. k" and c = ?c and key = "''wall''" and ts = ?ts and fs = ?fs
      and generator = ?g and w = 0 and w' = 1 and now = 0 and ts' = ?ts', OF _ _ _ nf tf]
  have nf': "no_faults \<lparr>files = [''cache/77616c6c.bin'' \<mapsto> \<lparr>content = [], modTime = 7\<rparr>],
            fault = (\<lambda>op. None), tmpNames = [''1'']\<rparr>" by (simp add: no_faults_def)
  have tf': "temp_free \<lparr>files = [''cache/77616c6c.bin'' \<mapsto> \<lparr>content = [], modTime = 7\<rparr>],
            fault = (\<lambda>op. None), tmpNames = [''1'']\<rparr> ?c" by (simp add: temp_free_def)
  show ?thesis using t m by (simp add: p writeFileAtomically_ok[OF nf' tf'])
qed

section \<open>Properties of the worker pool\<close>

lemma dispatch_length:
  "length (dispatch i uuids grid) = min (length uuids) (nat (Cols grid * Rows grid - int i))"
  by (induction uuids arbitrary: i) auto

lemma dispatch_length_0:
  "length (dispatch 0 uuids grid) = nat (min (int (length uuids)) (Cols grid * Rows grid))"
  by (simp add: dispatch_length)

lemma dispatch_nth:
  "j < length (dispatch i uuids grid) \<Longrightarrow>
     dispatch i uuids grid ! j =
       \<lparr>Index = i + j, UUID = uuids ! j, URL = ''https://api.imreally.gay/assets/'' @ uuids ! j,
        JobPicWidth = PicWidth grid, JobPicHeight = PicHeight grid\<rparr>"
proof (induction uuids arbitrary: i j)
  case Nil
  then show ?case by simp
next
  case (Cons u us)
  then show ?case by (cases j) (auto split: if_splits)
qed

lemma dispatch_Index: "map Index (dispatch i uuids grid) = [i..<i + length (dispatch i uuids grid)]"
  by (rule nth_equalityI) (simp_all add: dispatch_nth)

lemma worker_ResIndex [simp]: "ResIndex (worker out job) = Index job"
  by (simp add: worker_def split: sum.splits)

lemma distinct_results: "distinct (map ResIndex (map (worker out) (dispatch i uuids grid)))"
  by (simp add: o_def dispatch_Index)

lemma store_commute:
  "ResIndex r \<noteq> ResIndex r' \<Longrightarrow> store r (store r' m) = store r' (store r m)"
  by (auto simp: store_def fun_upd_twist split: sum.splits)

lemma fold_store_mset:
  assumes "distinct (map ResIndex rs)" "mset rs' = mset rs"
  shows "fold store rs' m = fold store rs m"
proof -
  have "fold store rs' = fold store rs"
  proof (rule fold_multiset_equiv)
    show "mset rs' = mset rs" by (rule assms(2))
    fix x y assume "x \<in> set rs'" "y \<in> set rs'"
    then have "x \<in> set rs" "y \<in> set rs" using assms(2) by (metis mset_eq_setD)+
    then have "x = y \<or> ResIndex x \<noteq> ResIndex y"
      using assms(1) by (meson distinct_map inj_on_def)
    then show "store x \<circ> store y = store y \<circ> store x"
      by (auto simp: fun_eq_iff store_commute)
  qed
  then show ?thesis by simp
qed

lemma collect_all:
  assumes "i + length arrived = min len (nat (Cols grid * Rows grid))" 
  shows "collect i len grid arrived images = Some (fold store arrived images, [])"
  using assms
proof (induction arrived arbitrary: i images)
  case Nil
  then show ?case by (subst collect.simps) auto
next
  case (Cons r rs)
  then have "i < len \<and> int i < Cols grid * Rows grid" by auto
  moreover have "Suc i + length rs = min len (nat (Cols grid * Rows grid))" using Cons.prems by simp
  ultimately show ?case using Cons.IH by (subst collect.simps) simp
qed

lemma collect_blocks:
  assumes "i + length arrived < min len (nat (Cols grid * Rows grid))" 
  shows "collect i len grid arrived images = None"
  using assms
proof (induction arrived arbitrary: i images)
  case Nil
  then show ?case by (subst collect.simps) auto
next
  case (Cons r rs)
  then have "i < len \<and> int i < Cols grid * Rows grid" by auto
  moreover have "Suc i + length rs < min len (nat (Cols grid * Rows grid))" using Cons.prems by simp
  ultimately show ?case using Cons.IH by (subst collect.simps) simp
qed

lemma dom_store:
  "dom (store r m) = dom m \<union> (if \<not> isl (Outcome r) then {ResIndex r} else {})"
  by (auto simp: store_def split: sum.splits)

lemma dom_fold_store:
  "dom (fold store rs m) = dom m \<union> ResIndex ` {r \<in> set rs. \<not> isl (Outcome r)}"
proof (induction rs arbitrary: m)
  case Nil
  then show ?case by simp
next
  case (Cons a rs)
  have "{r \<in> set (a # rs). \<not> isl (Outcome r)}
      = (if \<not> isl (Outcome a) then {a} else {}) \<union> {r \<in> set rs. \<not> isl (Outcome r)}"
    by auto
  then show ?case using Cons.IH[of "store a m"] by (auto simp: dom_store)
qed

lemma fold_store_lookup:
  assumes "distinct (map ResIndex rs)" "r \<in> set rs"
  shows "fold store rs m (ResIndex r) = (case Outcome r of Inl e \<Rightarrow> m (ResIndex r) | Inr img \<Rightarrow> Some img)"
  using assms
proof (induction rs arbitrary: m)
  case Nil
  then show ?case by simp
next
  case (Cons a rs)
  have other: "fold store rs m' j = m' j" if "j \<notin> ResIndex ` set rs" for m' j
    using that by (induction rs arbitrary: m') (auto simp: store_def split: sum.splits)
  show ?case
  proof (cases "r = a")
    case True
    have "ResIndex a \<notin> ResIndex ` set rs" using Cons.prems(1) by auto
    then have "fold store rs (store a m) (ResIndex a) = store a m (ResIndex a)"
      by (rule other)
    moreover have "store a m (ResIndex a) = (case Outcome a of Inl e \<Rightarrow> m (ResIndex a) | Inr img \<Rightarrow> Some img)"
      by (simp add: store_def split: sum.splits)
    ultimately show ?thesis unfolding True by simp
  next
    case False
    then have r: "r \<in> set rs" using Cons.prems(2) by simp
    then have ne: "ResIndex r \<noteq> ResIndex a" using Cons.prems(1) by (auto simp: image_iff)
    have "fold store rs (store a m) (ResIndex r)
        = (case Outcome r of Inl e \<Rightarrow> store a m (ResIndex r) | Inr img \<Rightarrow> Some img)"
      using Cons.IH[of "store a m"] Cons.prems(1) r by simp
    moreover have "store a m (ResIndex r) = m (ResIndex r)"
      using ne by (simp add: store_def split: sum.splits)
    ultimately show ?thesis by (simp split: sum.splits)
  qed
qed

lemma dispatch_job:
  assumes "job \<in> set (dispatch 0 uuids grid)"
  shows "Index job < length uuids" "UUID job = uuids ! Index job"
    "URL job = ''https://api.imreally.gay/assets/'' @ uuids ! Index job"
    "JobPicWidth job = PicWidth grid" "JobPicHeight job = PicHeight grid"
    "int (Index job) < Cols grid * Rows grid"
proof -
  obtain j where j: "j < length (dispatch 0 uuids grid)" and job: "job = dispatch 0 uuids grid ! j"
    using assms by (auto simp: in_set_conv_nth)
  note n = dispatch_nth[OF j]
  have jl: "j < min (length uuids) (nat (Cols grid * Rows grid - int 0))"
    using j unfolding dispatch_length .
  show "Index job < length uuids" using jl by (simp add: job n)
  show "UUID job = uuids ! Index job" by (simp add: job n)
  show "URL job = ''https://api.imreally.gay/assets/'' @ uuids ! Index job" by (simp add: job n)
  show "JobPicWidth job = PicWidth grid" by (simp add: job n)
  show "JobPicHeight job = PicHeight grid" by (simp add: job n)
  have "j < nat (Cols grid * Rows grid)" using jl by simp
  then have "int j < Cols grid * Rows grid" by linarith
  then show "int (Index job) < Cols grid * Rows grid" by (simp add: job n)
qed

lemma worker_Outcome:
  "Outcome (worker out job) =
     (case download out (URL job) of
        Inl err \<Rightarrow> Inl err
      | Inr img \<Rightarrow> Inr (Fill out img (JobPicWidth job) (JobPicHeight job)))"
  by (simp add: worker_def split: sum.splits)

lemma distinct_dispatch_Index: "distinct (map Index (dispatch i uuids grid))"
  by (simp add: dispatch_Index)

text \<open>The pool returns the same mapping whatever the order in which the results arrive.\<close>

lemma pool_order_irrelevant:
  assumes "0 < maxWorkers"
    and "mset (order (map (worker out) (dispatch 0 pictureUUIDs grid)))
           = mset (map (worker out) (dispatch 0 pictureUUIDs grid))"
  shows "downloadImagesWithWorkerPool out order pictureUUIDs grid maxWorkers
       = downloadImagesWithWorkerPool out (\<lambda>results. results) pictureUUIDs grid maxWorkers"
proof -
  define rs where "rs = map (worker out) (dispatch 0 pictureUUIDs grid)"
  have ms: "mset (order rs) = mset rs" using assms(2) unfolding rs_def .
  have drs: "distinct (map ResIndex rs)" unfolding rs_def by (rule distinct_results)
  have l: "length rs = min (length pictureUUIDs) (nat (Cols grid * Rows grid))"
    unfolding rs_def by (simp add: dispatch_length)
  have l': "length (order rs) = length rs" using ms by (metis size_mset)
  have a: "collect 0 (length pictureUUIDs) grid (order rs) Map.empty
      = Some (fold store (order rs) Map.empty, [])"
    by (rule collect_all) (simp add: l l')
  have b: "collect 0 (length pictureUUIDs) grid rs Map.empty = Some (fold store rs Map.empty, [])"
    by (rule collect_all) (simp add: l)
  show ?thesis
    using assms(1) a b fold_store_mset[OF drs ms]
    by (simp add: downloadImagesWithWorkerPool_def Let_def rs_def)
qed

text \<open>Without a worker, the collector of a pool that has a job to dispatch waits for ever.\<close>

lemma pool_without_workers_waits:
  assumes "maxWorkers \<le> 0" "pictureUUIDs \<noteq> []" "0 < Cols grid * Rows grid"
  shows "downloadImagesWithWorkerPool out order pictureUUIDs grid maxWorkers = None"
proof -
  have "0 < min (length pictureUUIDs) (nat (Cols grid * Rows grid))" using assms(2,3) by simp
  then have "0 + length ([] :: 'a ImageResult list)
      < min (length pictureUUIDs) (nat (Cols grid * Rows grid))"
    by simp
  then have "collect 0 (length pictureUUIDs) grid ([] :: 'a ImageResult list) Map.empty = None"
    by (rule collect_blocks)
  then show ?thesis using assms(1) by (simp add: downloadImagesWithWorkerPool_def)
qed

text \<open>
  Claim C7: with at least one worker, for every order in which the results of the
  dispatched jobs arrive, the pool returns; it dispatches \<open>min (len pictureUUIDs) (Cols * Rows)\<close> jobs and collects
  as many results, leaving none unread; the mapping it returns has one entry for each
  dispatched job whose download succeeds and none for a job whose download fails, so as
  many entries as jobs succeed; and the entry of a job is its image, resized to the tile
  of the grid, under the position of its identifier in the list.
\<close>

theorem downloadImagesWithWorkerPool_result:
  assumes "0 < maxWorkers"
    and "mset (order (map (worker out) (dispatch 0 pictureUUIDs grid)))
           = mset (map (worker out) (dispatch 0 pictureUUIDs grid))"
  shows "\<exists>images.
    downloadImagesWithWorkerPool out order pictureUUIDs grid maxWorkers = Some (images, []) \<and>
    length (dispatch 0 pictureUUIDs grid)
      = nat (min (int (length pictureUUIDs)) (Cols grid * Rows grid)) \<and>
    length (order (map (worker out) (dispatch 0 pictureUUIDs grid)))
      = length (dispatch 0 pictureUUIDs grid) \<and>
    dom images = Index ` {job \<in> set (dispatch 0 pictureUUIDs grid). \<not> isl (download out (URL job))} \<and>
    card (dom images)
      = length (filter (\<lambda>job. \<not> isl (download out (URL job))) (dispatch 0 pictureUUIDs grid)) \<and>
    (\<forall>job\<in>set (dispatch 0 pictureUUIDs grid).
        Index job < length pictureUUIDs \<and> UUID job = pictureUUIDs ! Index job \<and>
        images (Index job) =
          (case download out (URL job) of
             Inl err \<Rightarrow> None
           | Inr img \<Rightarrow> Some (Fill out img (PicWidth grid) (PicHeight grid))))"
proof -
  define jobs where "jobs = dispatch 0 pictureUUIDs grid"
  define rs where "rs = map (worker out) jobs"
  define images where "images = fold store rs Map.empty"
  define arrived where "arrived = order rs"
  have ms: "mset arrived = mset rs"
    using assms(2) unfolding arrived_def rs_def jobs_def by simp
  have len: "length arrived = length jobs"
    using ms unfolding rs_def by (metis length_map size_mset)
  have djobs: "distinct (map Index jobs)" unfolding jobs_def by (rule distinct_dispatch_Index)
  have drs: "distinct (map ResIndex rs)" unfolding rs_def jobs_def by (rule distinct_results)
  have k: "length jobs = nat (min (int (length pictureUUIDs)) (Cols grid * Rows grid))"
    unfolding jobs_def by (rule dispatch_length_0)
  have "0 + length arrived = min (length pictureUUIDs) (nat (Cols grid * Rows grid))"
    using len k by simp
  then have "collect 0 (length pictureUUIDs) grid arrived Map.empty
      = Some (fold store arrived Map.empty, [])"
    by (rule collect_all)
  then have run: "downloadImagesWithWorkerPool out order pictureUUIDs grid maxWorkers
      = Some (images, [])"
    unfolding downloadImagesWithWorkerPool_def images_def
    using fold_store_mset[OF drs ms] assms(1)
    by (simp add: Let_def arrived_def rs_def jobs_def)
  have isl: "isl (Outcome (worker out job)) = isl (download out (URL job))" for job
    by (simp add: worker_Outcome split: sum.splits)
  have "{r \<in> set rs. \<not> isl (Outcome r)} = worker out ` {job \<in> set jobs. \<not> isl (download out (URL job))}"
    unfolding rs_def by (auto simp: isl)
  then have dom: "dom images = Index ` {job \<in> set jobs. \<not> isl (download out (URL job))}"
    unfolding images_def dom_fold_store by (simp add: image_image)
  have inj: "inj_on Index (set jobs)" using djobs by (simp add: distinct_map)
  have dj: "distinct jobs" using djobs by (simp add: distinct_map)
  have "card (dom images) = card {job \<in> set jobs. \<not> isl (download out (URL job))}"
    unfolding dom by (rule card_image) (rule inj_on_subset[OF inj], auto)
  also have "\<dots> = card (set (filter (\<lambda>job. \<not> isl (download out (URL job))) jobs))" by simp
  also have "\<dots> = length (filter (\<lambda>job. \<not> isl (download out (URL job))) jobs)"
    by (rule distinct_card) (simp add: dj)
  finally have card: "card (dom images)
      = length (filter (\<lambda>job. \<not> isl (download out (URL job))) jobs)" .
  have each: "Index job < length pictureUUIDs \<and> UUID job = pictureUUIDs ! Index job \<and>
        images (Index job) =
          (case download out (URL job) of
             Inl err \<Rightarrow> None
           | Inr img \<Rightarrow> Some (Fill out img (PicWidth grid) (PicHeight grid)))"
    if "job \<in> set jobs" for job
  proof -
    have mem: "worker out job \<in> set rs" using that unfolding rs_def by simp
    have "images (ResIndex (worker out job))
        = (case Outcome (worker out job) of Inl e \<Rightarrow> Map.empty (ResIndex (worker out job)) | Inr img \<Rightarrow> Some img)"
      unfolding images_def by (rule fold_store_lookup[OF drs mem])
    then have "images (Index job) =
          (case download out (URL job) of
             Inl err \<Rightarrow> None
           | Inr img \<Rightarrow> Some (Fill out img (JobPicWidth job) (JobPicHeight job)))"
      by (simp add: worker_Outcome split: sum.splits)
    then show ?thesis using dispatch_job(1,2,4,5)[OF that[unfolded jobs_def]]
      by (simp split: sum.splits)
  qed
  show ?thesis
    using run k len dom card each unfolding jobs_def arrived_def rs_def by blast
qed

theorem downloadImagesWithWorkerPool_result_witness:
  "(0::int) < 10 \<and>
   mset (rev (map (worker \<lparr>api = ApiReply 200 [''a'', ''b'', ''c''],
            download = (\<lambda>url. if url = ''https://api.imreally.gay/assets/a''
                                then Inl ''timeout'' else Inr (7::nat)),
            Fill = (\<lambda>img w h. img + nat w + nat h), jpeg_Encode = (\<lambda>cv. Inr ''jpeg'')\<rparr>)
       (dispatch 0 [''a'', ''b'', ''c''] \<lparr>Cols = 1, Rows = 2, PicWidth = 4, PicHeight = 8\<rparr>)))
     = mset (map (worker \<lparr>api = ApiReply 200 [''a'', ''b'', ''c''],
            download = (\<lambda>url. if url = ''https://api.imreally.gay/assets/a''
                                then Inl ''timeout'' else Inr (7::nat)),
            Fill = (\<lambda>img w h. img + nat w + nat h), jpeg_Encode = (\<lambda>cv. Inr ''jpeg'')\<rparr>)
       (dispatch 0 [''a'', ''b'', ''c''] \<lparr>Cols = 1, Rows = 2, PicWidth = 4, PicHeight = 8\<rparr>)) \<and>
   (\<exists>images. downloadImagesWithWorkerPool
        \<lparr>api = ApiReply 200 [''a'', ''b'', ''c''],
         download = (\<lambda>url. if url = ''https://api.imreally.gay/assets/a''
                             then Inl ''timeout'' else Inr (7::nat)),
         Fill = (\<lambda>img w h. img + nat w + nat h), jpeg_Encode = (\<lambda>cv. Inr ''jpeg'')\<rparr>
        rev [''a'', ''b'', ''c''] \<lparr>Cols = 1, Rows = 2, PicWidth = 4, PicHeight = 8\<rparr> 10
        = Some (images, []) \<and>
      card (dom images) = 1 \<and> images 0 = None \<and> images 1 = Some 19)"
proof -
  let ?out = "\<lparr>api = ApiReply 200 [''a'', ''b'', ''c''],
            download = (\<lambda>url. if url = ''https://api.imreally.gay/assets/a''
                                then Inl ''timeout'' else Inr (7::nat)),
            Fill = (\<lambda>img w h. img + nat w + nat h), jpeg_Encode = (\<lambda>cv. Inr ''jpeg'')\<rparr>"
  let ?g = "\<lparr>Cols = 1, Rows = 2, PicWidth = 4, PicHeight = 8\<rparr>"
  have d: "dispatch 0 [''a'', ''b'', ''c''] ?g =
     [\<lparr>Index = 0, UUID = ''a'', URL = ''https://api.imreally.gay/assets/a'',
       JobPicWidth = 4, JobPicHeight = 8\<rparr>,
      \<lparr>Index = 1, UUID = ''b'', URL = ''https://api.imreally.gay/assets/b'',
       JobPicWidth = 4, JobPicHeight = 8\<rparr>]"
    by simp
  have h1: "(0::int) < 10" by simp
  have h2: "mset (rev (map (worker ?out) (dispatch 0 [''a'', ''b'', ''c''] ?g)))
      = mset (map (worker ?out) (dispatch 0 [''a'', ''b'', ''c''] ?g))"
    by simp
  obtain images where
    r: "downloadImagesWithWorkerPool ?out rev [''a'', ''b'', ''c''] ?g 10 = Some (images, [])"
    and c: "card (dom images)
      = length (filter (\<lambda>job. \<not> isl (download ?out (URL job))) (dispatch 0 [''a'', ''b'', ''c''] ?g))"
    and e: "\<forall>job\<in>set (dispatch 0 [''a'', ''b'', ''c''] ?g).
        Index job < length [''a'', ''b'', ''c''] \<and> UUID job = [''a'', ''b'', ''c''] ! Index job \<and>
        images (Index job) =
          (case download ?out (URL job) of
             Inl err \<Rightarrow> None
           | Inr img \<Rightarrow> Some (Fill ?out img (PicWidth ?g) (PicHeight ?g)))"
    using downloadImagesWithWorkerPool_result[where order = rev, OF h1 h2] by blast
  have c1: "card (dom images) = 1" using c unfolding d by simp
  have i0: "images 0 = None" and i1: "images 1 = Some 19" using e unfolding d by simp_all
  show ?thesis using h1 h2 r c1 i0 i1 by blast
qed

section \<open>Properties of the route handler\<close>

lemma rowsFor_lower:
  assumes "1 \<le> c" "k * c < n"
  shows "k < rowsFor n c"
proof -
  have "(of_int k :: rat) * of_int c < of_int n"
    using assms(2) by (metis of_int_less_iff of_int_mult)
  then have "(of_int k :: rat) < of_int n / of_int c"
    using assms(1) by (simp add: pos_less_divide_eq)
  then show ?thesis unfolding rowsFor_def by (simp add: less_ceiling_iff)
qed

lemma util_of_zero_width: "PicWidth g = 0 \<Longrightarrow> util_of cw ch g = 0"
  by (simp add: util_of_def utilization_def)

lemma candidate_too_many:
  assumes "1048576 < n" "1 \<le> c" "c \<le> n" "candidate 1024 2048 n c = Some g"
  shows "util_of 1024 2048 g = 0"
proof -
  define r where "r = rowsFor n c"
  have r1: "1 \<le> r" unfolding r_def using assms(2,3) by (rule rowsFor_pos)
  have tw: "quo 1024 c = 1024 div c" using assms(2) by (simp add: quo_nonneg)
  have th: "quo 2048 r = 2048 div r" using r1 by (simp add: quo_nonneg)
  have th0: "0 \<le> 2048 div r" using r1 by (simp add: pos_imp_zdiv_nonneg_iff)
  have h2: "quo (2048 div r) 2 = 2048 div r div 2" using th0 by (simp add: quo_nonneg)
  have g: "g = (if 2048 div r > 2 * (1024 div c)
      then \<lparr>Cols = c, Rows = r, PicWidth = 1024 div c, PicHeight = 2 * (1024 div c)\<rparr>
      else \<lparr>Cols = c, Rows = r, PicWidth = 2048 div r div 2, PicHeight = 2048 div r\<rparr>)"
    using assms(4) by (auto simp: candidate_def Let_def r_def[symmetric] tw th h2 split: if_splits)
  have "PicWidth g = 0"
  proof (cases "c \<le> 1024")
    case True
    have "1024 * c < n" using True assms(1) by simp
    then have big: "1024 < r" unfolding r_def by (rule rowsFor_lower[OF assms(2)])
    have "2048 div r \<le> 2048 div (1025::int)"
      by (rule zdiv_mono2) (use big in simp_all)
    then have small: "2048 div r \<le> 1" by simp
    have "0 < 1024 div c" using True assms(2)
      by (subst pos_imp_zdiv_pos_iff) simp_all
    then have "\<not> 2048 div r > 2 * (1024 div c)" using small by simp
    then have "PicWidth g = 2048 div r div 2" using g by simp
    then show ?thesis using small th0 by simp
  next
    case False
    then have z: "1024 div c = 0" by (simp add: div_pos_pos_trivial)
    show ?thesis
    proof (cases "2048 div r > 0")
      case True
      then show ?thesis using g z by simp
    next
      case False
      then have "2048 div r = 0" using th0 by simp
      then show ?thesis using g z by simp
    qed
  qed
  then show ?thesis by (rule util_of_zero_width)
qed

lemma grid_body_too_many:
  assumes "1048576 < n" "1 \<le> c" "c \<le> n"
  shows "grid_body 1024 2048 n c best0 = best0"
proof (cases "candidate 1024 2048 n c")
  case None
  then show ?thesis by (simp add: grid_body_candidate)
next
  case (Some g)
  have "util_of 1024 2048 g = 0" using assms Some by (rule candidate_too_many)
  then show ?thesis using Some
    by (simp add: grid_body_candidate consider_cand_def best0_def)
qed

lemma calculateOptimalGrid_too_many:
  assumes "1048576 < n"
  shows "calculateOptimalGrid 1024 2048 n = zero_grid"
proof -
  have "(\<lambda>c b. 1 \<le> c \<and> b = best0) (n + 1) (grid_loop 1024 2048 n 1 best0)"
  proof (rule grid_loop_invariant)
    show "1 \<le> (1::int) \<and> best0 = best0" by simp
    show "1 \<le> n + 1" using assms by simp
    show "\<And>c b. c \<le> n \<Longrightarrow> 1 \<le> c \<and> b = best0 \<Longrightarrow>
        1 \<le> c + 1 \<and> grid_body 1024 2048 n c b = best0"
      using assms grid_body_too_many by simp
  qed
  then show ?thesis
    by (simp add: calculateOptimalGrid_grid_of grid_of_def best0_def zero_grid_def)
qed

text \<open>The pool and the compositing loop on a grid without cells.\<close>

lemma dispatch_no_cells: "Cols grid * Rows grid \<le> 0 \<Longrightarrow> dispatch i uuids grid = []"
  by (cases uuids) simp_all

lemma collect_no_cells:
  "Cols grid * Rows grid \<le> 0 \<Longrightarrow> collect i len grid arrived images = Some (images, arrived)"
  by (subst collect.simps) simp

lemma paste_all_no_cells:
  "Cols grid * Rows grid \<le> 0 \<Longrightarrow> paste_all i grid images combined = combined"
  by (subst paste_all.simps) simp

lemma wall_generator_no_cells:
  assumes "api out = ApiReply 200 pictures" "pictures \<noteq> []"
    and "calculateOptimalGrid 1024 2048 (int (length pictures)) = zero_grid"
  shows "wall_generator out =
     Some (case jpeg_Encode out (New 1024 2048) of
             Inl err \<Rightarrow> Inl (''encode jpeg: '' @ err)
           | Inr buf \<Rightarrow> Inr buf, out)"
proof -
  have z: "Cols zero_grid * Rows zero_grid \<le> 0" by (simp add: zero_grid_def)
  show ?thesis
    using assms(2)
    by (simp add: wall_generator_def assms(1,3) Let_def downloadImagesWithWorkerPool_def
        dispatch_no_cells[OF z] collect_no_cells[OF z] paste_all_no_cells[OF z]
        split: sum.splits)
qed






lemma too_many_pictures:
  "calculateOptimalGrid 1024 2048 (int (length (replicate 1048577 p))) = zero_grid"
  by (rule calculateOptimalGrid_too_many) simp




text \<open>
  Claim C2, as amended: when the planner returns the zero spec, the generator does not
  fail on it. It dispatches no job, pastes nothing, and returns the encoding of the
  canvas that holds the background only (it fails only if the encoder does); and when the
  reads of the cache miss and no operating-system call fails, the route stores these bytes
  as the artifact and answers 200 with them.
\<close>

theorem wall_generator_zero_grid:
  assumes "api out = ApiReply 200 pictures" "pictures \<noteq> []"
    and "calculateOptimalGrid 1024 2048 (int (length pictures)) = zero_grid"
  shows "wall_generator out =
           Some (case jpeg_Encode out (New 1024 2048) of
                   Inl err \<Rightarrow> Inl (''encode jpeg: '' @ err)
                 | Inr buf \<Rightarrow> Inr buf, out) \<and>
         (jpeg_Encode out (New 1024 2048) = Inr buf \<and>
          Get sha wall_cache ''wall'' (atFast ts) fs = Inr None \<and> atFast ts \<le> atRecheck ts \<and>
          no_faults fs \<and> temp_free fs wall_cache \<longrightarrow>
            route sha ts fs out =
              Some (\<lparr>Status = 200,
                     Headers = [(''Content-Type'', ''image/jpeg''),
                                (''Content-Length'', fmt_d (int (length buf))),
                                (''X-Cache'', ''MISS'')],
                     Body = buf\<rparr>,
                    fs\<lparr>files := (files fs)(filePath sha wall_cache ''wall'' \<mapsto>
                                      \<lparr>content = buf, modTime = atWrite ts\<rparr>)\<rparr>))"
proof (intro conjI impI)
  show g: "wall_generator out =
           Some (case jpeg_Encode out (New 1024 2048) of
                   Inl err \<Rightarrow> Inl (''encode jpeg: '' @ err)
                 | Inr buf \<Rightarrow> Inr buf, out)"
    using assms by (rule wall_generator_no_cells)
  assume a: "jpeg_Encode out (New 1024 2048) = Inr buf \<and>
          Get sha wall_cache ''wall'' (atFast ts) fs = Inr None \<and> atFast ts \<le> atRecheck ts \<and>
          no_faults fs \<and> temp_free fs wall_cache"
  then have m: "Get sha wall_cache ''wall'' (atFast ts) fs = Inr None"
    and o: "atFast ts \<le> atRecheck ts" and nf: "no_faults fs" and tf: "temp_free fs wall_cache"
    and e: "jpeg_Encode out (New 1024 2048) = Inr buf"
    by simp_all
  show "route sha ts fs out =
              Some (\<lparr>Status = 200,
                     Headers = [(''Content-Type'', ''image/jpeg''),
                                (''Content-Length'', fmt_d (int (length buf))),
                                (''X-Cache'', ''MISS'')],
                     Body = buf\<rparr>,
                    fs\<lparr>files := (files fs)(filePath sha wall_cache ''wall'' \<mapsto>
                                      \<lparr>content = buf, modTime = atWrite ts\<rparr>)\<rparr>)"
    by (simp add: route_def GetOrCreate_miss[OF m o] g e writeFileAtomically_ok[OF nf tf]
        respond_def)
qed

theorem wall_generator_zero_grid_witness:
  "api \<lparr>api = ApiReply 200 (replicate 1048577 ''p''), download = (\<lambda>url. Inr (0::nat)),
        Fill = (\<lambda>img w h. img), jpeg_Encode = (\<lambda>cv. Inr ''jpeg'')\<rparr>
     = ApiReply 200 (replicate 1048577 ''p'') \<and>
   replicate 1048577 ''p'' \<noteq> [] \<and>
   calculateOptimalGrid 1024 2048 (int (length (replicate 1048577 ''p''))) = zero_grid \<and>
   wall_generator \<lparr>api = ApiReply 200 (replicate 1048577 ''p''), download = (\<lambda>url. Inr (0::nat)),
        Fill = (\<lambda>img w h. img), jpeg_Encode = (\<lambda>cv. Inr ''jpeg'')\<rparr>
     = Some (Inr ''jpeg'',
         \<lparr>api = ApiReply 200 (replicate 1048577 ''p''), download = (\<lambda>url. Inr (0::nat)),
          Fill = (\<lambda>img w h. img), jpeg_Encode = (\<lambda>cv. Inr ''jpeg'')\<rparr>)"
proof -
  let ?out = "\<lparr>api = ApiReply 200 (replicate 1048577 ''p''), download = (\<lambda>url. Inr (0::nat)),
        Fill = (\<lambda>img w h. img), jpeg_Encode = (\<lambda>cv. Inr ''jpeg'')\<rparr>"
  have a: "api ?out = ApiReply 200 (replicate 1048577 ''p'')" by simp
  have n: "replicate 1048577 ''p'' \<noteq> []" by simp
  have z: "calculateOptimalGrid 1024 2048 (int (length (replicate 1048577 ''p''))) = zero_grid"
    by (rule too_many_pictures)
  have "wall_generator ?out = Some (Inr ''jpeg'', ?out)"
    using conjunct1[OF wall_generator_zero_grid[OF a n z]] by simp
  then show ?thesis using a n z by blast
qed

text \<open>
  Claim C2 as stated fails for 1048577 pictures, for which no tile of at least one by two
  pixels fits the canvas of 1024 by 2048 and the planner returns the zero spec: the route
  answers 200 with the encoded background and stores it in the cache.
\<close>

theorem wall_generator_zero_grid_counterexample:
  "route (\<lambda>k. k) \<lparr>atFast = 5, atRecheck = 6, atWrite = 7\<rparr>
     \<lparr>files = Map.empty, fault = (\<lambda>op. None), tmpNames = [''1'']\<rparr>
     \<lparr>api = ApiReply 200 (replicate 1048577 ''p''), download = (\<lambda>url. Inr (0::nat)),
      Fill = (\<lambda>img w h. img), jpeg_Encode = (\<lambda>cv. Inr ''jpeg'')\<rparr>
   = Some (\<lparr>Status = 200,
            Headers = [(''Content-Type'', ''image/jpeg''), (''Content-Length'', ''4''),
                       (''X-Cache'', ''MISS'')],
            Body = ''jpeg''\<rparr>,
           \<lparr>files = [''cache/77616c6c.bin'' \<mapsto> \<lparr>content = ''jpeg'', modTime = 7\<rparr>],
            fault = (\<lambda>op. None), tmpNames = [''1'']\<rparr>)"
proof -
  let ?out = "\<lparr>api = ApiReply 200 (replicate 1048577 ''p''), download = (\<lambda>url. Inr (0::nat)),
        Fill = (\<lambda>img w h. img), jpeg_Encode = (\<lambda>cv. Inr ''jpeg'')\<rparr>"
  let ?fs = "\<lparr>files = Map.empty, fault = (\<lambda>op. None), tmpNames = [''1'']\<rparr>"
  let ?ts = "\<lparr>atFast = 5, atRecheck = 6, atWrite = 7\<rparr>"
  have a: "api ?out = ApiReply 200 (replicate 1048577 ''p'')" by simp
  have n: "replicate 1048577 ''p'' \<noteq> []" by simp
  have g: "wall_generator ?out = Some (Inr ''jpeg'', ?out)"
    using wall_generator_no_cells[OF a n too_many_pictures] by simp
  have m: "Get (\<lambda>k. k) wall_cache ''wall'' (atFast ?ts) ?fs = Inr None"
    by (simp add: Get_def os_Stat_def IsNotExist_def)
  have o: "atFast ?ts \<le> atRecheck ?ts" by simp
  have nf: "no_faults ?fs" by (simp add: no_faults_def)
  have tf: "temp_free ?fs wall_cache" by (simp add: temp_free_def)
  have p: "filePath (\<lambda>k. k) wall_cache ''wall'' = ''cache/77616c6c.bin''"
    by (simp add: filePath_def EncodeToString_def hexdigit_def wall_cache_def)
  have d: "fmt_d 4 = ''4''" by code_simp
  show ?thesis
    by (simp add: route_def GetOrCreate_miss[OF m o] g writeFileAtomically_ok[OF nf tf]
        respond_def p d)
qed

section \<open>Properties of concurrent calls\<close>

lemma clock_act [simp]: "clock (act sha c key generator t s) = clock s"
  by (simp add: act_def split: place.splits sum.splits option.splits prod.splits)

lemma mutex_not_holder:
  "mutex_ok s \<Longrightarrow> \<not> in_lock (places s t) \<Longrightarrow> holder s \<noteq> Some t"
  by (simp add: mutex_ok_def)

lemma mutex_holder:
  "mutex_ok s \<Longrightarrow> in_lock (places s t) \<Longrightarrow> holder s = Some t"
  by (simp add: mutex_ok_def)

lemma mutex_others:
  "mutex_ok s \<Longrightarrow> in_lock (places s t) \<Longrightarrow> u \<noteq> t \<Longrightarrow> \<not> in_lock (places s u)"
  by (auto simp: mutex_ok_def)

text \<open>The four kinds of change a step makes to the mutex and the places.\<close>

lemma mutex_move_outside:
  assumes "mutex_ok s" "\<not> in_lock (places s t)" "\<not> in_lock p"
  shows "mutex_ok (s\<lparr>places := (places s)(t := p)\<rparr>)"
  using assms by (auto simp: mutex_ok_def)

lemma mutex_move_inside:
  assumes "mutex_ok s" "in_lock (places s t)" "in_lock p"
  shows "mutex_ok (s\<lparr>places := (places s)(t := p)\<rparr>)"
  using assms by (auto simp: mutex_ok_def)

lemma mutex_take:
  assumes "mutex_ok s" "holder s = None"
  shows "mutex_ok (s\<lparr>holder := Some t, places := (places s)(t := Locked)\<rparr>)"
  using assms by (auto simp: mutex_ok_def in_lock_def)

lemma mutex_release:
  assumes "mutex_ok s" "in_lock (places s t)" "\<not> in_lock p"
  shows "mutex_ok (s\<lparr>holder := None, places := (places s)(t := p)\<rparr>)"
  using assms by (auto simp: mutex_ok_def)

lemma in_lock_simps [simp]:
  "\<not> in_lock Start" "\<not> in_lock AwaitLock" "in_lock Locked" "in_lock Generating"
  "in_lock (Writing d)" "\<not> in_lock (Done r)"
  by (simp_all add: in_lock_def)

lemma act_before_run:
  assumes miss: "Get sha c key (clock s) fs0 = Inr None"
    and gen: "generator w0 = Some (Inr data, w1)"
    and m: "mutex_ok s" and b: "before_run fs0 w0 s"
  shows "mutex_ok (act sha c key generator t s) \<and>
         (before_run fs0 w0 (act sha c key generator t s) \<or>
          before_write fs0 w1 data (act sha c key generator t s))"
proof -
  have c: "calls s = 0" and d: "disk s = fs0" and w: "world s = w0"
    and p: "\<And>u. places s u \<in> {Start, AwaitLock, Locked, Generating}"
    using b by (auto simp: before_run_def)
  consider "places s t = Start" | "places s t = AwaitLock" | "places s t = Locked"
    | "places s t = Generating"
    using p[of t] by auto
  then show ?thesis
  proof cases
    case 1
    then have a: "act sha c key generator t s = s\<lparr>places := (places s)(t := AwaitLock)\<rparr>"
      by (simp add: act_def d miss)
    have "mutex_ok (s\<lparr>places := (places s)(t := AwaitLock)\<rparr>)"
      using m 1 by (intro mutex_move_outside) simp_all
    moreover have "before_run fs0 w0 (s\<lparr>places := (places s)(t := AwaitLock)\<rparr>)"
      using c d w p by (simp add: before_run_def)
    ultimately show ?thesis unfolding a by blast
  next
    case 2
    show ?thesis
    proof (cases "holder s")
      case None
      then have a: "act sha c key generator t s = s\<lparr>holder := Some t, places := (places s)(t := Locked)\<rparr>"
        using 2 by (simp add: act_def)
      have "mutex_ok (s\<lparr>holder := Some t, places := (places s)(t := Locked)\<rparr>)"
        using m None by (rule mutex_take)
      moreover have "before_run fs0 w0 (s\<lparr>holder := Some t, places := (places s)(t := Locked)\<rparr>)"
        using c d w p by (simp add: before_run_def)
      ultimately show ?thesis unfolding a by blast
    next
      case (Some h)
      then have "act sha c key generator t s = s" using 2 by (simp add: act_def)
      then show ?thesis using m b by simp
    qed
  next
    case 3
    then have a: "act sha c key generator t s = s\<lparr>places := (places s)(t := Generating)\<rparr>"
      by (simp add: act_def d miss)
    have "mutex_ok (s\<lparr>places := (places s)(t := Generating)\<rparr>)"
      using m 3 by (intro mutex_move_inside) simp_all
    moreover have "before_run fs0 w0 (s\<lparr>places := (places s)(t := Generating)\<rparr>)"
      using c d w p by (simp add: before_run_def)
    ultimately show ?thesis unfolding a by blast
  next
    case 4
    then have a: "act sha c key generator t s =
        s\<lparr>world := w1, places := (places s)(t := Writing data), calls := Suc (calls s)\<rparr>"
      by (simp add: act_def w gen)
    have h: "holder s = Some t" using m 4 by (intro mutex_holder) simp_all
    have o: "places s u \<in> {Start, AwaitLock}" if "u \<noteq> t" for u
    proof -
      have "\<not> in_lock (places s u)" using m _ that by (rule mutex_others) (simp add: 4)
      then show ?thesis using p[of u] by auto
    qed
    have "mutex_ok (s\<lparr>places := (places s)(t := Writing data)\<rparr>)"
      using m 4 by (intro mutex_move_inside) simp_all
    then have "mutex_ok (s\<lparr>world := w1, places := (places s)(t := Writing data), calls := Suc (calls s)\<rparr>)"
      by (simp add: mutex_ok_def)
    moreover have "before_write fs0 w1 data
        (s\<lparr>world := w1, places := (places s)(t := Writing data), calls := Suc (calls s)\<rparr>)"
      using c d h o by (auto simp: before_write_def)
    ultimately show ?thesis unfolding a by blast
  qed
qed

lemma act_before_write:
  assumes miss: "Get sha c key (clock s) fs0 = Inr None"
    and nf: "no_faults fs0" and tf: "temp_free fs0 c"
    and t0: "t0 \<le> clock s"
    and m: "mutex_ok s" and b: "before_write fs0 w1 data s"
  shows "mutex_ok (act sha c key generator t s) \<and>
         (before_write fs0 w1 data (act sha c key generator t s) \<or>
          after_write sha c key fs0 w1 data t0 (act sha c key generator t s))"
proof -
  have c: "calls s = 1" and d: "disk s = fs0" and w: "world s = w1" and hn: "holder s \<noteq> None"
    and p: "\<And>u. places s u \<in> {Start, AwaitLock, Writing data}"
    using b by (auto simp: before_write_def)
  consider "places s t = Start" | "places s t = AwaitLock" | "places s t = Writing data"
    using p[of t] by auto
  then show ?thesis
  proof cases
    case 1
    then have a: "act sha c key generator t s = s\<lparr>places := (places s)(t := AwaitLock)\<rparr>"
      by (simp add: act_def d miss)
    have "mutex_ok (s\<lparr>places := (places s)(t := AwaitLock)\<rparr>)"
      using m 1 by (intro mutex_move_outside) simp_all
    moreover have "before_write fs0 w1 data (s\<lparr>places := (places s)(t := AwaitLock)\<rparr>)"
      using c d w hn p by (simp add: before_write_def)
    ultimately show ?thesis unfolding a by blast
  next
    case 2
    then have "act sha c key generator t s = s" using hn by (auto simp: act_def)
    then show ?thesis using m b by simp
  next
    case 3
    let ?fs = "fs0\<lparr>files := (files fs0)(filePath sha c key \<mapsto> \<lparr>content = data, modTime = clock s\<rparr>)\<rparr>"
    have a: "act sha c key generator t s =
        s\<lparr>disk := ?fs, holder := None, places := (places s)(t := Done (Inr (data, False)))\<rparr>"
      using 3 by (simp add: act_def d writeFileAtomically_ok[OF nf tf])
    have o: "places s u \<in> {Start, AwaitLock}" if "u \<noteq> t" for u
    proof -
      have "\<not> in_lock (places s u)" using m _ that by (rule mutex_others) (simp add: 3)
      then show ?thesis using p[of u] by auto
    qed
    have nd: "places s u \<noteq> Done r" if "u \<noteq> t" for u r
      using o[OF that] by auto
    have "mutex_ok (s\<lparr>holder := None, places := (places s)(t := Done (Inr (data, False)))\<rparr>)"
      using m by (rule mutex_release) (simp_all add: 3)
    then have "mutex_ok (s\<lparr>disk := ?fs, holder := None,
        places := (places s)(t := Done (Inr (data, False)))\<rparr>)"
      by (simp add: mutex_ok_def)
    moreover have "after_write sha c key fs0 w1 data t0
        (s\<lparr>disk := ?fs, holder := None, places := (places s)(t := Done (Inr (data, False)))\<rparr>)"
      unfolding after_write_def
    proof (intro conjI)
      show "\<exists>tw\<ge>t0. tw \<le> clock (s\<lparr>disk := ?fs, holder := None,
              places := (places s)(t := Done (Inr (data, False)))\<rparr>) \<and>
          disk (s\<lparr>disk := ?fs, holder := None, places := (places s)(t := Done (Inr (data, False)))\<rparr>)
            = fs0\<lparr>files := (files fs0)(filePath sha c key \<mapsto> \<lparr>content = data, modTime = tw\<rparr>)\<rparr>"
        using t0 by (intro exI[of _ "clock s"]) simp
      show "\<forall>u. places (s\<lparr>disk := ?fs, holder := None,
              places := (places s)(t := Done (Inr (data, False)))\<rparr>) u
            \<in> {Start, AwaitLock, Locked, Done (Inr (data, True)), Done (Inr (data, False))}"
        using o by auto
      show "\<forall>u u'. places (s\<lparr>disk := ?fs, holder := None,
              places := (places s)(t := Done (Inr (data, False)))\<rparr>) u = Done (Inr (data, False)) \<and>
            places (s\<lparr>disk := ?fs, holder := None,
              places := (places s)(t := Done (Inr (data, False)))\<rparr>) u' = Done (Inr (data, False))
            \<longrightarrow> u = u'"
        using nd by (auto split: if_splits)
    qed (simp_all add: c w)
    ultimately show ?thesis unfolding a by blast
  qed
qed

lemma act_after_write:
  assumes nf: "no_faults fs0" and ne: "data \<noteq> []"
    and fresh: "clock s \<le> t0 + TTL c"
    and m: "mutex_ok s" and b: "after_write sha c key fs0 w1 data t0 s"
  shows "mutex_ok (act sha c key generator t s) \<and>
         after_write sha c key fs0 w1 data t0 (act sha c key generator t s)"
proof -
  obtain tw where c: "calls s = 1" and w: "world s = w1"
    and tw: "t0 \<le> tw" "tw \<le> clock s"
    and d: "disk s = fs0\<lparr>files := (files fs0)(filePath sha c key \<mapsto> \<lparr>content = data, modTime = tw\<rparr>)\<rparr>"
    and p: "\<And>u. places s u \<in> {Start, AwaitLock, Locked, Done (Inr (data, True)), Done (Inr (data, False))}"
    and u: "\<And>u u'. places s u = Done (Inr (data, False)) \<Longrightarrow> places s u' = Done (Inr (data, False)) \<Longrightarrow> u = u'"
    using b unfolding after_write_def by blast
  have nf': "no_faults (disk s)" using nf by (simp add: d no_faults_def)
  have hit: "Get sha c key (clock s) (disk s) = Inr (Some data)"
    unfolding Get_no_faults[OF nf'] using ne tw fresh by (simp add: d)
  have keep: "after_write sha c key fs0 w1 data t0 (s\<lparr>holder := h, places := (places s)(t := q)\<rparr>)"
    if "q \<in> {AwaitLock, Locked, Done (Inr (data, True))}" for h q
    unfolding after_write_def
  proof (intro conjI)
    show "\<exists>tw\<ge>t0. tw \<le> clock (s\<lparr>holder := h, places := (places s)(t := q)\<rparr>) \<and>
        disk (s\<lparr>holder := h, places := (places s)(t := q)\<rparr>)
          = fs0\<lparr>files := (files fs0)(filePath sha c key \<mapsto> \<lparr>content = data, modTime = tw\<rparr>)\<rparr>"
      using tw d by (intro exI[of _ tw]) simp
    show "\<forall>u. places (s\<lparr>holder := h, places := (places s)(t := q)\<rparr>) u
          \<in> {Start, AwaitLock, Locked, Done (Inr (data, True)), Done (Inr (data, False))}"
      using p that by auto
    show "\<forall>u u'. places (s\<lparr>holder := h, places := (places s)(t := q)\<rparr>) u = Done (Inr (data, False)) \<and>
          places (s\<lparr>holder := h, places := (places s)(t := q)\<rparr>) u' = Done (Inr (data, False))
          \<longrightarrow> u = u'"
      using u that by (auto split: if_splits)
  qed (simp_all add: c w)
  consider "places s t = Start" | "places s t = AwaitLock" | "places s t = Locked"
    | r where "places s t = Done r"
    using p[of t] by auto
  then show ?thesis
  proof cases
    case 1
    then have a: "act sha c key generator t s = s\<lparr>places := (places s)(t := Done (Inr (data, True)))\<rparr>"
      by (simp add: act_def hit)
    have "mutex_ok (s\<lparr>places := (places s)(t := Done (Inr (data, True)))\<rparr>)"
      using m 1 by (intro mutex_move_outside) simp_all
    moreover have "after_write sha c key fs0 w1 data t0
        (s\<lparr>places := (places s)(t := Done (Inr (data, True)))\<rparr>)"
      using keep[of "Done (Inr (data, True))" "holder s"] by simp
    ultimately show ?thesis unfolding a by blast
  next
    case 2
    show ?thesis
    proof (cases "holder s")
      case None
      then have a: "act sha c key generator t s = s\<lparr>holder := Some t, places := (places s)(t := Locked)\<rparr>"
        using 2 by (simp add: act_def)
      have "mutex_ok (s\<lparr>holder := Some t, places := (places s)(t := Locked)\<rparr>)"
        using m None by (rule mutex_take)
      moreover have "after_write sha c key fs0 w1 data t0
          (s\<lparr>holder := Some t, places := (places s)(t := Locked)\<rparr>)"
        by (rule keep) simp
      ultimately show ?thesis unfolding a by blast
    next
      case (Some h)
      then have "act sha c key generator t s = s" using 2 by (simp add: act_def)
      then show ?thesis using m b by simp
    qed
  next
    case 3
    then have a: "act sha c key generator t s =
        s\<lparr>holder := None, places := (places s)(t := Done (Inr (data, True)))\<rparr>"
      by (simp add: act_def hit)
    have "mutex_ok (s\<lparr>holder := None, places := (places s)(t := Done (Inr (data, True)))\<rparr>)"
      using m by (rule mutex_release) (simp_all add: 3)
    moreover have "after_write sha c key fs0 w1 data t0
        (s\<lparr>holder := None, places := (places s)(t := Done (Inr (data, True)))\<rparr>)"
      by (rule keep) simp
    ultimately show ?thesis unfolding a by blast
  next
    case 4
    then have "act sha c key generator t s = s" by (simp add: act_def)
    then show ?thesis using m b by simp
  qed
qed

lemma race_inv_act:
  assumes miss: "Get sha c key t0 fs0 = Inr None"
    and nf: "no_faults fs0" and tf: "temp_free fs0 c"
    and gen: "generator w0 = Some (Inr data, w1)" and ne: "data \<noteq> []"
    and inv: "race_inv sha c key fs0 w0 w1 data t0 s" and fresh: "clock s \<le> t0 + TTL c"
  shows "race_inv sha c key fs0 w0 w1 data t0 (act sha c key generator t s)"
proof -
  have m: "mutex_ok s" and t0: "t0 \<le> clock s"
    and ph: "before_run fs0 w0 s \<or> before_write fs0 w1 data s \<or> after_write sha c key fs0 w1 data t0 s"
    using inv by (simp_all add: race_inv_def)
  have miss': "Get sha c key (clock s) fs0 = Inr None"
    using miss t0 by (rule Get_miss_mono)
  from ph show ?thesis
  proof (elim disjE)
    assume "before_run fs0 w0 s"
    then show ?thesis
      using act_before_run[where generator = generator and ?w0.0 = w0 and t = t, OF miss' gen m] t0
      by (auto simp: race_inv_def)
  next
    assume "before_write fs0 w1 data s"
    then show ?thesis
      using act_before_write[where generator = generator and t = t and data = data and ?w1.0 = w1,
          OF miss' nf tf t0 m] t0
      by (auto simp: race_inv_def)
  next
    assume "after_write sha c key fs0 w1 data t0 s"
    then show ?thesis
      using act_after_write[where generator = generator and t = t and sha = sha and key = key
          and ?w1.0 = w1, OF nf ne fresh m] t0
      by (auto simp: race_inv_def)
  qed
qed

lemma race_inv_tick:
  assumes "race_inv sha c key fs0 w0 w1 data t0 s"
  shows "race_inv sha c key fs0 w0 w1 data t0 (s\<lparr>clock := clock s + int d\<rparr>)"
proof -
  have "after_write sha c key fs0 w1 data t0 (s\<lparr>clock := clock s + int d\<rparr>)"
    if "after_write sha c key fs0 w1 data t0 s"
    using that unfolding after_write_def by (auto intro: order_trans)
  then show ?thesis
    using assms by (auto simp: race_inv_def mutex_ok_def before_run_def before_write_def)
qed

lemma race_inv_run:
  assumes miss: "Get sha c key t0 fs0 = Inr None"
    and nf: "no_faults fs0" and tf: "temp_free fs0 c"
    and gen: "generator w0 = Some (Inr data, w1)" and ne: "data \<noteq> []"
  shows "race_inv sha c key fs0 w0 w1 data t0 s \<Longrightarrow> clock s + elapsed es \<le> t0 + TTL c \<Longrightarrow>
     race_inv sha c key fs0 w0 w1 data t0 (run sha c key generator es s)"
proof (induction es arbitrary: s)
  case Nil
  then show ?case by simp
next
  case (Cons e es)
  show ?case
  proof (cases e)
    case (Act t)
    have el: "0 \<le> elapsed es" by (induction es rule: elapsed.induct) simp_all
    have fresh: "clock s \<le> t0 + TTL c" using Cons.prems(2) el Act by simp
    have "race_inv sha c key fs0 w0 w1 data t0 (act sha c key generator t s)"
      by (rule race_inv_act[where generator = generator and ?w0.0 = w0,
            OF miss nf tf gen ne Cons.prems(1) fresh])
    moreover have "clock (act sha c key generator t s) + elapsed es \<le> t0 + TTL c"
      using Cons.prems(2) Act by simp
    ultimately show ?thesis using Cons.IH Act by simp
  next
    case (Tick d)
    have "race_inv sha c key fs0 w0 w1 data t0 (s\<lparr>clock := clock s + int d\<rparr>)"
      using Cons.prems(1) by (rule race_inv_tick)
    moreover have "clock (s\<lparr>clock := clock s + int d\<rparr>) + elapsed es \<le> t0 + TTL c"
      using Cons.prems(2) Tick by simp
    ultimately show ?thesis using Cons.IH Tick by simp
  qed
qed

lemma race_inv_race0: "race_inv sha c key fs0 w0 w1 data t0 (race0 fs0 w0 t0)"
  by (simp add: race_inv_def race0_def mutex_ok_def before_run_def)

text \<open>
  A call that runs alone, from its first read to its return, does what \<open>GetOrCreate\<close>
  does when all its instants are the instant of the run.
\<close>

lemma act_Done [simp]: "places s t = Done r \<Longrightarrow> act sha c key generator t s = s"
  by (simp add: act_def)

lemma solo_GetOrCreate:
  assumes "places s t = Start" "holder s = None"
  shows "case GetOrCreate sha c key generator
               \<lparr>atFast = clock s, atRecheck = clock s, atWrite = clock s\<rparr> (disk s) (world s) of
           None \<Rightarrow>
             places (run sha c key generator [Act t, Act t, Act t, Act t, Act t] s) t = Generating
         | Some (r, fs', w') \<Rightarrow>
             places (run sha c key generator [Act t, Act t, Act t, Act t, Act t] s) t = Done r \<and>
             disk (run sha c key generator [Act t, Act t, Act t, Act t, Act t] s) = fs' \<and>
             world (run sha c key generator [Act t, Act t, Act t, Act t, Act t] s) = w' \<and>
             holder (run sha c key generator [Act t, Act t, Act t, Act t, Act t] s) = None"
proof (cases "Get sha c key (clock s) (disk s)")
  case (Inl err)
  then show ?thesis using assms by (simp add: GetOrCreate_def act_def)
next
  case (Inr hit)
  show ?thesis
  proof (cases hit)
    case (Some data)
    then show ?thesis using Inr assms by (simp add: GetOrCreate_def act_def)
  next
    case None
    define s1 where "s1 = s\<lparr>places := (places s)(t := AwaitLock)\<rparr>"
    define s2 where "s2 = s1\<lparr>holder := Some t, places := (places s1)(t := Locked)\<rparr>"
    define s3 where "s3 = s2\<lparr>places := (places s2)(t := Generating)\<rparr>"
    have a1: "act sha c key generator t s = s1" using Inr None assms by (simp add: act_def s1_def)
    have a2: "act sha c key generator t s1 = s2" using assms by (simp add: act_def s1_def s2_def)
    have a3: "act sha c key generator t s2 = s3"
      using Inr None by (simp add: act_def s1_def s2_def s3_def)
    have r: "run sha c key generator [Act t, Act t, Act t, Act t, Act t] s
        = act sha c key generator t (act sha c key generator t s3)"
      by (simp add: a1 a2 a3)
    have p3: "places s3 t = Generating" "disk s3 = disk s" "world s3 = world s" "clock s3 = clock s"
      by (simp_all add: s1_def s2_def s3_def)
    show ?thesis
    proof (cases "generator (world s)")
      case None': None
      have "act sha c key generator t s3 = s3" using None' p3 by (simp add: act_def)
      then show ?thesis unfolding r using None' Inr None p3 by (simp add: GetOrCreate_def)
    next
      case (Some res)
      obtain g w' where res: "res = (g, w')" by (cases res)
      show ?thesis
      proof (cases g)
        case (Inl err)
        then show ?thesis unfolding r using Some res Inr None p3
          by (simp add: GetOrCreate_def act_def)
      next
        case data: (Inr data)
        obtain e fs' where wr: "writeFileAtomically sha c key data (clock s) (disk s) = (e, fs')"
          by (cases "writeFileAtomically sha c key data (clock s) (disk s)")
        show ?thesis unfolding r using Some res data Inr None p3 wr
          by (cases e) (simp_all add: GetOrCreate_def act_def)
      qed
    qed
  qed
qed

text \<open>
  Claim C4, as amended: for a key with no fresh artifact, when the generator succeeds
  with bytes that are not empty, no operating-system call fails and the calls run within
  the TTL, then under every schedule of any number of concurrent calls of \<open>GetOrCreate\<close>
  for the key the generator runs at most once, and exactly once as soon as one call has
  returned; every call that has returned has received the bytes of that run, and at most
  one of them as a miss.
\<close>

theorem concurrent_GetOrCreate_one_run:
  assumes "Get sha c key t0 fs0 = Inr None"
    and "no_faults fs0" "temp_free fs0 c"
    and "generator w0 = Some (Inr data, w1)" "data \<noteq> []"
    and "elapsed es \<le> TTL c"
  shows "calls (run sha c key generator es (race0 fs0 w0 t0)) \<le> 1 \<and>
         (\<forall>t r. places (run sha c key generator es (race0 fs0 w0 t0)) t = Done r \<longrightarrow>
            calls (run sha c key generator es (race0 fs0 w0 t0)) = 1 \<and>
            (\<exists>hit. r = Inr (data, hit))) \<and>
         (\<forall>t t'. places (run sha c key generator es (race0 fs0 w0 t0)) t = Done (Inr (data, False)) \<and>
            places (run sha c key generator es (race0 fs0 w0 t0)) t' = Done (Inr (data, False)) \<longrightarrow>
            t = t')"
proof -
  define s where "s = run sha c key generator es (race0 fs0 w0 t0)"
  have "clock (race0 fs0 w0 t0) + elapsed es \<le> t0 + TTL c"
    using assms(6) by (simp add: race0_def)
  then have inv: "race_inv sha c key fs0 w0 w1 data t0 s"
    unfolding s_def
    by (rule race_inv_run[where generator = generator and ?w0.0 = w0, OF assms(1-5) race_inv_race0])
  then have ph: "before_run fs0 w0 s \<or> before_write fs0 w1 data s \<or> after_write sha c key fs0 w1 data t0 s"
    by (simp add: race_inv_def)
  have c: "calls s \<le> 1"
    using ph by (auto simp: before_run_def before_write_def after_write_def)
  have aw: "after_write sha c key fs0 w1 data t0 s" if "places s t = Done r" for t r
  proof -
    have "\<not> before_run fs0 w0 s"
    proof
      assume "before_run fs0 w0 s"
      then have "places s t \<in> {Start, AwaitLock, Locked, Generating}"
        by (simp add: before_run_def)
      then show False using that by simp
    qed
    moreover have "\<not> before_write fs0 w1 data s"
    proof
      assume "before_write fs0 w1 data s"
      then have "places s t \<in> {Start, AwaitLock, Writing data}"
        by (simp add: before_write_def)
      then show False using that by simp
    qed
    ultimately show ?thesis using ph by blast
  qed
  have d: "calls s = 1 \<and> (\<exists>hit. r = Inr (data, hit))" if "places s t = Done r" for t r
  proof -
    have a: "after_write sha c key fs0 w1 data t0 s" using that by (rule aw)
    then have "places s t \<in> {Start, AwaitLock, Locked, Done (Inr (data, True)), Done (Inr (data, False))}"
      unfolding after_write_def by blast
    then show ?thesis using that a by (auto simp: after_write_def)
  qed
  have u: "t = t'" if "places s t = Done (Inr (data, False))" "places s t' = Done (Inr (data, False))" for t t'
    using aw[OF that(1)] that unfolding after_write_def by blast
  show ?thesis using c d u unfolding s_def by blast
qed

theorem concurrent_GetOrCreate_one_run_witness:
  "Get (\<lambda>k. k) \<lparr>Dir = ''cache'', TTL = 1000\<rparr> ''wall'' 5
     \<lparr>files = Map.empty, fault = (\<lambda>op. None), tmpNames = [''1'']\<rparr> = Inr None \<and>
   no_faults \<lparr>files = Map.empty, fault = (\<lambda>op. None), tmpNames = [''1'']\<rparr> \<and>
   temp_free \<lparr>files = Map.empty, fault = (\<lambda>op. None), tmpNames = [''1'']\<rparr>
     \<lparr>Dir = ''cache'', TTL = 1000\<rparr> \<and>
   elapsed [Act 0, Act 1, Act 0, Act 1, Act 0, Act 0, Act 0, Tick 3, Act 1, Act 1] \<le> 1000 \<and>
   places (run (\<lambda>k. k) \<lparr>Dir = ''cache'', TTL = 1000\<rparr> ''wall'' (\<lambda>n::nat. Some (Inr ''jpeg'', Suc n))
      [Act 0, Act 1, Act 0, Act 1, Act 0, Act 0, Act 0, Tick 3, Act 1, Act 1]
      (race0 \<lparr>files = Map.empty, fault = (\<lambda>op. None), tmpNames = [''1'']\<rparr> 0 5)) 0
     = Done (Inr (''jpeg'', False)) \<and>
   places (run (\<lambda>k. k) \<lparr>Dir = ''cache'', TTL = 1000\<rparr> ''wall'' (\<lambda>n::nat. Some (Inr ''jpeg'', Suc n))
      [Act 0, Act 1, Act 0, Act 1, Act 0, Act 0, Act 0, Tick 3, Act 1, Act 1]
      (race0 \<lparr>files = Map.empty, fault = (\<lambda>op. None), tmpNames = [''1'']\<rparr> 0 5)) 1
     = Done (Inr (''jpeg'', True)) \<and>
   calls (run (\<lambda>k. k) \<lparr>Dir = ''cache'', TTL = 1000\<rparr> ''wall'' (\<lambda>n::nat. Some (Inr ''jpeg'', Suc n))
      [Act 0, Act 1, Act 0, Act 1, Act 0, Act 0, Act 0, Tick 3, Act 1, Act 1]
      (race0 \<lparr>files = Map.empty, fault = (\<lambda>op. None), tmpNames = [''1'']\<rparr> 0 5)) = 1"
proof -
  let ?fs = "\<lparr>files = Map.empty, fault = (\<lambda>op. None), tmpNames = [''1'']\<rparr>"
  let ?c = "\<lparr>Dir = ''cache'', TTL = 1000\<rparr>"
  let ?g = "\<lambda>n::nat. Some (Inr ''jpeg'' :: string + bytes, Suc n)"
  let ?es = "[Act 0, Act 1, Act 0, Act 1, Act 0, Act 0, Act 0, Tick 3, Act 1, Act 1]"
  let ?s = "run (\<lambda>k. k) ?c ''wall'' ?g ?es (race0 ?fs 0 5)"
  have m: "Get (\<lambda>k. k) ?c ''wall'' 5 ?fs = Inr None"
    by (simp add: Get_def os_Stat_def IsNotExist_def)
  have nf: "no_faults ?fs" by (simp add: no_faults_def)
  have tf: "temp_free ?fs ?c" by (simp add: temp_free_def)
  have el: "elapsed ?es \<le> TTL ?c" by simp
  have p0: "places ?s 0 = Done (Inr (''jpeg'', False))" by code_simp
  have p1: "places ?s 1 = Done (Inr (''jpeg'', True))" by code_simp
  have "calls ?s = 1"
    using concurrent_GetOrCreate_one_run[where generator = ?g and ?w0.0 = 0 and ?w1.0 = 1 and data = "''jpeg''"
        and es = ?es, OF m nf tf _ _ el] p0
    by simp
  then show ?thesis using m nf tf el p0 p1 by simp
qed

text \<open>
  Claim C4 as stated fails for a generator that returns an error: two calls both miss,
  the first takes the mutex, reads again, runs the generator and returns its error; the
  second then takes the mutex, finds no artifact and runs the generator a second time.
\<close>

theorem concurrent_GetOrCreate_one_run_counterexample:
  "calls (run (\<lambda>k. k) \<lparr>Dir = ''cache'', TTL = 1000\<rparr> ''wall'' (\<lambda>n::nat. Some (Inl ''api status 503'', Suc n))
      [Act 0, Act 1, Act 0, Act 1, Act 0, Act 0, Act 1, Act 1, Act 1]
      (race0 \<lparr>files = Map.empty, fault = (\<lambda>op. None), tmpNames = [''1'']\<rparr> 0 5)) = 2"
  by code_simp

end
